theory Spec2Isabelle
  imports Main "HOL-Library.Word" "HOL-Library.Sublist" "HOL-Library.AList"
begin

section \<open>Data\<close>

text \<open>
  Python \<open>bytes\<close> are lists of 8-bit words; a Python \<open>str\<close> is a list of Unicode code
  points (natural numbers), so that \<open>len\<close> counts code points as Python does.
  \<open>lit\<close> and \<open>blit\<close> write the string and bytes literals of the source.
\<close>

type_synonym byte = "8 word"
type_synonym bytes = "byte list"
type_synonym str = "nat list"

definition lit :: "string \<Rightarrow> str" where
  "lit cs = map of_char cs"

definition blit :: "string \<Rightarrow> bytes" where
  "blit cs = map of_char cs"

text \<open>The exceptions that can leave a method of \<open>GitDumper\<close> unhandled.\<close>

datatype py_error = IndexError | UnicodeDecodeError | IsADirectoryError | FileNotFoundError

text \<open>
  What \<open>session.get\<close> does: a response with a status code and a body, or an exception
  (time-out, connection error).
\<close>

datatype response = Response nat bytes | RequestException

text \<open>
  The observable events of a run, in order: \<open>Fetched path result\<close> is one call of
  \<open>download_file\<close> with the repository-relative path it was given and what it returned,
  \<open>Saved path content\<close> is one call of \<open>save_file\<close>.
\<close>

datatype event = Fetched str "bytes option" | Saved str bytes

text \<open>
  The collaborators the source calls but does not define: the HTTP session (its answer
  may depend on everything that happened before), \<open>urllib.parse.urljoin\<close>, the decoding
  of a file opened in text mode (locale encoding, strict errors, universal newlines:
  \<open>open(p, 'r').read()\<close>), and the order in which Python iterates a \<open>set\<close> of strings.
\<close>

record env =
  http_get :: "event list \<Rightarrow> str \<Rightarrow> response"
  urljoin :: "str \<Rightarrow> str \<Rightarrow> str"
  read_text :: "bytes \<Rightarrow> py_error + str"
  set_order :: "str list \<Rightarrow> str list"

text \<open>
  The files below \<open>output_dir\<close>, keyed by their path relative to it as the source writes
  it (\<open>.git/HEAD\<close>), and the events so far. Paths are compared as written: \<open>..\<close>,
  \<open>.\<close>, repeated slashes and absolute paths are not resolved, so the model follows
  \<open>pathlib\<close> and the operating system on plain paths only (\<open>plain_path\<close> below), and a
  statement that depends on which file a path names has the hypothesis that the paths
  concerned are plain. A directory exists where a file lies below it, and a write always
  succeeds: the failures of the operating system (permissions, a full disk, a file where a
  directory is needed) are not part of the model.
\<close>

record state =
  files :: "(str \<times> bytes) list"
  trace :: "event list"

record GitDumper =
  base_url :: str
  output_dir :: str

section \<open>Python built-ins\<close>

text \<open>\<open>str.isspace\<close> for one code point, and \<open>str.strip()\<close>.\<close>

definition isspace :: "nat \<Rightarrow> bool" where
  "isspace c = (c \<in> set [9, 10, 11, 12, 13, 28, 29, 30, 31, 32, 133, 160, 5760,
     8192, 8193, 8194, 8195, 8196, 8197, 8198, 8199, 8200, 8201, 8202,
     8232, 8233, 8239, 8287, 12288])"

definition strip :: "str \<Rightarrow> str" where
  "strip s = rev (dropWhile isspace (rev (dropWhile isspace s)))"

text \<open>\<open>s.rstrip('/')\<close>.\<close>

definition rstrip_slash :: "str \<Rightarrow> str" where
  "rstrip_slash s = rev (dropWhile (\<lambda>c. c = 47) (rev s))"

text \<open>
  \<open>s.split(sep)\<close> for a non-empty separator (every call of the source passes a
  literal): the pieces between the non-overlapping occurrences of \<open>sep\<close>, found from
  the left. \<open>cur\<close> is the piece being read.
\<close>

fun split_from :: "str \<Rightarrow> str \<Rightarrow> str \<Rightarrow> str list" where
  "split_from sep cur [] = [cur]"
| "split_from sep cur (c # cs) =
     (if sep \<noteq> [] \<and> prefix sep (c # cs)
      then cur # split_from sep [] (drop (length sep - 1) cs)
      else split_from sep (cur @ [c]) cs)"

definition split :: "str \<Rightarrow> str \<Rightarrow> str list" where
  "split s sep = split_from sep [] s"

text \<open>\<open>xs[i]\<close> for a non-negative index: IndexError out of range.\<close>

definition index :: "'a list \<Rightarrow> nat \<Rightarrow> py_error + 'a" where
  "index xs i = (if i < length xs then Inr (xs ! i) else Inl IndexError)"

text \<open>\<open>sub in content\<close> on bytes: \<open>sub\<close> occurs as a contiguous slice.\<close>

fun contains :: "bytes \<Rightarrow> bytes \<Rightarrow> bool" where
  "contains sub [] = (sub = [])"
| "contains sub (b # bs) = (prefix sub (b # bs) \<or> contains sub bs)"

text \<open>\<open>bytes.hex()\<close>: two lower-case hexadecimal digits per byte.\<close>

definition hexdigit :: "nat \<Rightarrow> nat" where
  "hexdigit n = (if n < 10 then 48 + n else 87 + n)"

definition hex :: "bytes \<Rightarrow> str" where
  "hex bs = concat (map (\<lambda>b. [hexdigit (unat b div 16), hexdigit (unat b mod 16)]) bs)"

text \<open>The truth value of \<open>content\<close> in \<open>if content:\<close>: neither None nor empty.\<close>

fun truthy :: "bytes option \<Rightarrow> bool" where
  "truthy None = False"
| "truthy (Some c) = (c \<noteq> [])"

text \<open>
  Iterating a Python set built from the list \<open>xs\<close>: every element once, in an order the
  language does not fix. The order is the collaborator's; an answer that is not an
  enumeration of the set is replaced by the order of first insertion.
\<close>

definition set_iter :: "env \<Rightarrow> str list \<Rightarrow> str list" where
  "set_iter e xs =
     (let d = remdups xs; ys = set_order e d
      in if distinct ys \<and> set ys = set d then ys else d)"

section \<open>The file system below the output directory\<close>

definition path_join :: "str \<Rightarrow> str \<Rightarrow> str" where
  "path_join a b = a @ lit ''/'' @ b"

definition is_file :: "(str \<times> bytes) list \<Rightarrow> str \<Rightarrow> bool" where
  "is_file fs p = (case map_of fs p of None \<Rightarrow> False | Some c \<Rightarrow> True)"

definition is_dir :: "(str \<times> bytes) list \<Rightarrow> str \<Rightarrow> bool" where
  "is_dir fs p = (\<not> is_file fs p \<and> list_ex (\<lambda>kv. prefix (p @ lit ''/'') (fst kv)) fs)"

definition path_exists :: "(str \<times> bytes) list \<Rightarrow> str \<Rightarrow> bool" where
  "path_exists fs p = (is_file fs p \<or> is_dir fs p)"

text \<open>\<open>open(p, 'rb').read()\<close>.\<close>

definition read_bytes :: "(str \<times> bytes) list \<Rightarrow> str \<Rightarrow> py_error + bytes" where
  "read_bytes fs p =
     (case map_of fs p of
        Some c \<Rightarrow> Inr c
      | None \<Rightarrow> if is_dir fs p then Inl IsADirectoryError else Inl FileNotFoundError)"

text \<open>\<open>open(p, 'r').read()\<close>.\<close>

definition read_str :: "env \<Rightarrow> (str \<times> bytes) list \<Rightarrow> str \<Rightarrow> py_error + str" where
  "read_str e fs p = (case read_bytes fs p of Inl x \<Rightarrow> Inl x | Inr c \<Rightarrow> read_text e c)"

text \<open>\<open>d.rglob('*')\<close> filtered by \<open>is_file()\<close>: the files below the directory \<open>d\<close>.\<close>

definition rglob_files :: "(str \<times> bytes) list \<Rightarrow> str \<Rightarrow> str list" where
  "rglob_files fs d = filter (\<lambda>k. prefix (d @ lit ''/'') k) (map fst fs)"

text \<open>
  A plain path: relative, without an empty component (no leading, trailing or repeated
  slash) and without a component \<open>.\<close> or \<open>..\<close>. \<open>pathlib\<close> keeps such a path as it is
  written and the operating system follows it one name at a time, so that, in a directory
  without symbolic links, two plain paths name the same file exactly when they are equal.
\<close>

definition plain_path :: "str \<Rightarrow> bool" where
  "plain_path p =
     list_all (\<lambda>c. c \<noteq> [] \<and> c \<noteq> lit ''.'' \<and> c \<noteq> lit ''..'') (split p (lit ''/''))"

section \<open>GitDumper\<close>

text \<open>\<open>__init__\<close> (lines 16-22).\<close>

definition init :: "str \<Rightarrow> str \<Rightarrow> GitDumper" where
  "init url out = \<lparr>base_url = rstrip_slash url @ lit ''/.git/'', output_dir = out\<rparr>"

text \<open>
  \<open>download_file\<close> (lines 24-34): the body of a response with status 200, None for any
  other status and for any exception of the request.
\<close>

definition download_file :: "env \<Rightarrow> GitDumper \<Rightarrow> str \<Rightarrow> state \<Rightarrow> bytes option \<times> state" where
  "download_file e d path st =
     (let url = urljoin e (base_url d) path;
          res = (case http_get e (trace st) url of
                   Response status_code content \<Rightarrow>
                     if status_code = 200 then Some content else None
                 | RequestException \<Rightarrow> None)
      in (res, st\<lparr>trace := trace st @ [Fetched path res]\<rparr>))"

text \<open>\<open>save_file\<close> (lines 36-43): the file at \<open>output_dir / path\<close> holds \<open>content\<close>.\<close>

definition save_file :: "str \<Rightarrow> bytes \<Rightarrow> state \<Rightarrow> state" where
  "save_file path content st =
     st\<lparr>files := AList.update path content (files st),
        trace := trace st @ [Saved path content]\<rparr>"

text \<open>
  The loop shared by \<open>dump_basic_files\<close>, \<open>dump_refs\<close> and \<open>dump_logs\<close>: download each
  path and save what is not empty under \<open>.git/\<close>.
\<close>

fun download_each :: "env \<Rightarrow> GitDumper \<Rightarrow> str list \<Rightarrow> state \<Rightarrow> state" where
  "download_each e d [] st = st"
| "download_each e d (file # rest) st =
     (case download_file e d file st of
        (content, st1) \<Rightarrow>
          download_each e d rest
            (if truthy content then save_file (lit ''.git/'' @ file) (the content) st1 else st1))"

definition basic_files :: "str list" where
  "basic_files = map lit [''HEAD'', ''config'', ''description'', ''index'', ''packed-refs'',
     ''FETCH_HEAD'', ''ORIG_HEAD'']"

definition ref_paths :: "str list" where
  "ref_paths = map lit [''refs/heads/master'', ''refs/heads/main'',
     ''refs/remotes/origin/master'', ''refs/remotes/origin/main'',
     ''refs/remotes/origin/HEAD'', ''refs/stash'']"

definition log_paths :: "str list" where
  "log_paths = map lit [''logs/HEAD'', ''logs/refs/heads/master'', ''logs/refs/heads/main'',
     ''logs/refs/remotes/origin/master'', ''logs/refs/remotes/origin/main'']"

definition dump_basic_files :: "env \<Rightarrow> GitDumper \<Rightarrow> state \<Rightarrow> state" where
  "dump_basic_files e d st = download_each e d basic_files st"

definition dump_refs :: "env \<Rightarrow> GitDumper \<Rightarrow> state \<Rightarrow> state" where
  "dump_refs e d st = download_each e d ref_paths st"

definition dump_logs :: "env \<Rightarrow> GitDumper \<Rightarrow> state \<Rightarrow> state" where
  "dump_logs e d st = download_each e d log_paths st"

text \<open>
  \<open>parse_index_file\<close> (lines 96-117). \<open>scan_index\<close> is the while loop: \<open>i\<close> runs while
  \<open>i < len(content) - 20\<close>, an integer comparison.
\<close>

function scan_index :: "bytes \<Rightarrow> nat \<Rightarrow> str list \<Rightarrow> str list" where
  "scan_index content i hashes =
     (if int i < int (length content) - 20
      then (let chunk = take 20 (drop i content); hex_hash = hex chunk
            in scan_index content (i + 1)
                 (if length hex_hash = 40 then hashes @ [hex_hash] else hashes))
      else hashes)"
  by pat_completeness auto
termination
  by (relation "measure (\<lambda>(content, i, hashes). length content - i)") auto

definition parse_index_file :: "env \<Rightarrow> state \<Rightarrow> py_error + str list" where
  "parse_index_file e st =
     (let index_path = path_join (lit ''.git'') (lit ''index'')
      in if \<not> path_exists (files st) index_path then Inr []
         else (case read_bytes (files st) index_path of
                 Inl x \<Rightarrow> Inl x
               | Inr content \<Rightarrow> Inr (set_iter e (scan_index content 0 []))))"

text \<open>\<open>dump_object\<close> (lines 119-128).\<close>

definition obj_path :: "str \<Rightarrow> str" where
  "obj_path sha1_hash = lit ''objects/'' @ take 2 sha1_hash @ lit ''/'' @ drop 2 sha1_hash"

definition dump_object :: "env \<Rightarrow> GitDumper \<Rightarrow> str \<Rightarrow> state \<Rightarrow> bool \<times> state" where
  "dump_object e d sha1_hash st =
     (case download_file e d (obj_path sha1_hash) st of
        (content, st1) \<Rightarrow>
          if truthy content
          then (True, save_file (lit ''.git/'' @ obj_path sha1_hash) (the content) st1)
          else (False, st1))"

text \<open>The two loops \<open>for sha1_hash in hashes: self.dump_object(sha1_hash)\<close>.\<close>

fun dump_each :: "env \<Rightarrow> GitDumper \<Rightarrow> str list \<Rightarrow> state \<Rightarrow> state" where
  "dump_each e d [] st = st"
| "dump_each e d (sha1_hash # rest) st = dump_each e d rest (snd (dump_object e d sha1_hash st))"

text \<open>
  \<open>dump_objects_from_refs\<close> (lines 130-164). \<open>head_ref\<close> is the \<open>ref_path\<close> read from
  HEAD (lines 139-145, None when HEAD is absent or no indirection), \<open>head_hashes\<close> the
  rest of that block (lines 146-149), \<open>refs_hashes\<close> the loop over the files below
  \<open>refs\<close> (lines 151-159); \<open>ref_hashes\<close> is the set \<open>hashes\<close> when the downloads begin, in
  order of insertion.
\<close>

definition head_ref :: "env \<Rightarrow> (str \<times> bytes) list \<Rightarrow> py_error + str option" where
  "head_ref e fs =
     (let git_dir = lit ''.git''; head_file = path_join git_dir (lit ''HEAD'')
      in if path_exists fs head_file then
           (case read_str e fs head_file of
              Inl x \<Rightarrow> Inl x
            | Inr raw \<Rightarrow>
                (let content = strip raw
                 in if prefix (lit ''ref:'') content then
                      (case index (split content (lit ''ref: '')) 1 of
                         Inl x \<Rightarrow> Inl x
                       | Inr ref_path \<Rightarrow> Inr (Some ref_path))
                    else Inr None))
         else Inr None)"

definition head_hashes :: "env \<Rightarrow> (str \<times> bytes) list \<Rightarrow> py_error + str list" where
  "head_hashes e fs =
     (case head_ref e fs of
        Inl x \<Rightarrow> Inl x
      | Inr None \<Rightarrow> Inr []
      | Inr (Some ref_path) \<Rightarrow>
          (let ref_file = path_join (lit ''.git'') ref_path
           in if path_exists fs ref_file then
                (case read_str e fs ref_file of
                   Inl x \<Rightarrow> Inl x
                 | Inr t \<Rightarrow> Inr [strip t])
              else Inr []))"

fun refs_hashes :: "env \<Rightarrow> (str \<times> bytes) list \<Rightarrow> str list \<Rightarrow> str list \<Rightarrow> py_error + str list" where
  "refs_hashes e fs [] hashes = Inr hashes"
| "refs_hashes e fs (ref_file # rest) hashes =
     (case read_str e fs ref_file of
        Inl x \<Rightarrow> Inl x
      | Inr t \<Rightarrow>
          (let content = strip t
           in refs_hashes e fs rest
                (if length content = 40 then hashes @ [content] else hashes)))"

definition ref_hashes :: "env \<Rightarrow> (str \<times> bytes) list \<Rightarrow> py_error + str list" where
  "ref_hashes e fs =
     (case head_hashes e fs of
        Inl x \<Rightarrow> Inl x
      | Inr hashes \<Rightarrow>
          (let refs_dir = path_join (lit ''.git'') (lit ''refs'')
           in if path_exists fs refs_dir
              then refs_hashes e fs (rglob_files fs refs_dir) hashes
              else Inr hashes))"

definition dump_objects_from_refs :: "env \<Rightarrow> GitDumper \<Rightarrow> state \<Rightarrow> py_error option \<times> state" where
  "dump_objects_from_refs e d st =
     (case ref_hashes e (files st) of
        Inl x \<Rightarrow> (Some x, st)
      | Inr hashes \<Rightarrow> (None, dump_each e d (set_iter e hashes) st))"

text \<open>\<open>dump_objects_from_index\<close> (lines 166-173).\<close>

definition dump_objects_from_index :: "env \<Rightarrow> GitDumper \<Rightarrow> state \<Rightarrow> py_error option \<times> state" where
  "dump_objects_from_index e d st =
     (case parse_index_file e st of
        Inl x \<Rightarrow> (Some x, st)
      | Inr hashes \<Rightarrow> (None, dump_each e d (filter (\<lambda>h. length h = 40) hashes) st))"

text \<open>\<open>check_git_exposed\<close> (lines 175-186).\<close>

definition check_git_exposed :: "env \<Rightarrow> GitDumper \<Rightarrow> state \<Rightarrow> bool \<times> state" where
  "check_git_exposed e d st =
     (case download_file e d (lit ''HEAD'') st of
        (content, st1) \<Rightarrow> (truthy content \<and> contains (blit ''ref:'') (the content), st1))"

text \<open>
  \<open>dump\<close> (lines 188-209): \<open>Inr\<close> the value returned, \<open>Inl\<close> the exception that ended
  the run, with the state reached.
\<close>

definition dump :: "env \<Rightarrow> GitDumper \<Rightarrow> state \<Rightarrow> (py_error + bool) \<times> state" where
  "dump e d st =
     (case check_git_exposed e d st of
        (exposed, st1) \<Rightarrow>
          if \<not> exposed then (Inr False, st1)
          else
            (let st2 = dump_basic_files e d st1;
                 st3 = dump_refs e d st2;
                 st4 = dump_logs e d st3
             in case dump_objects_from_refs e d st4 of
                  (Some x, st5) \<Rightarrow> (Inl x, st5)
                | (None, st5) \<Rightarrow>
                    (case dump_objects_from_index e d st5 of
                       (Some x, st6) \<Rightarrow> (Inl x, st6)
                     | (None, st6) \<Rightarrow> (Inr True, st6))))"

section \<open>The command line\<close>

text \<open>
  \<open>re.sub(r'\.git(\/|)', '', url)\<close> (line 236): from the left, each match of \<open>.git\<close>
  followed by a slash when there is one is dropped; the scan goes on after the match.
\<close>

fun remove_git :: "str \<Rightarrow> str" where
  "remove_git [] = []"
| "remove_git (c # cs) =
     (if prefix (lit ''.git/'') (c # cs) then remove_git (drop 4 cs)
      else if prefix (lit ''.git'') (c # cs) then remove_git (drop 3 cs)
      else c # remove_git cs)"

text \<open>Lines 231-236 of \<open>main\<close>: the scheme is added, then the substitution is made.\<close>

definition with_scheme :: "str \<Rightarrow> str" where
  "with_scheme arg =
     (if \<not> prefix (lit ''http://'') arg \<and> \<not> prefix (lit ''https://'') arg
      then lit ''http://'' @ arg else arg)"

definition target_url :: "str \<Rightarrow> str" where
  "target_url arg = remove_git (with_scheme arg)"

text \<open>
  \<open>main\<close> (lines 229-240): the exit status of the process. An exception that nothing
  catches ends the interpreter with status 1.
\<close>

definition main :: "env \<Rightarrow> str \<Rightarrow> str \<Rightarrow> state \<Rightarrow> nat \<times> state" where
  "main e arg out st =
     (let dumper = init (target_url arg) out
      in case dump e dumper st of
           (Inr success, st') \<Rightarrow> (if success then 0 else 1, st')
         | (Inl x, st') \<Rightarrow> (1, st'))"

text \<open>The state of a run that passed the probe when the downloads of objects begin.\<close>

definition before_objects :: "env \<Rightarrow> GitDumper \<Rightarrow> state \<Rightarrow> state" where
  "before_objects e d st =
     dump_logs e d (dump_refs e d (dump_basic_files e d (snd (check_git_exposed e d st))))"

text \<open>
  The state of that run when \<open>dump_objects_from_refs\<close> is over and
  \<open>dump_objects_from_index\<close> begins.
\<close>

definition after_refs :: "env \<Rightarrow> GitDumper \<Rightarrow> state \<Rightarrow> state" where
  "after_refs e d st = snd (dump_objects_from_refs e d (before_objects e d st))"

section \<open>Observations on a run\<close>

text \<open>The repository-relative paths requested from the server, in order.\<close>

fun fetched_paths :: "event list \<Rightarrow> str list" where
  "fetched_paths [] = []"
| "fetched_paths (Fetched p r # evs) = p # fetched_paths evs"
| "fetched_paths (Saved q c # evs) = fetched_paths evs"

text \<open>
  Every write follows the download of its path at once and stores the downloaded bytes
  themselves, under \<open>.git/\<close> and the same path.
\<close>

fun verbatim :: "event list \<Rightarrow> bool" where
  "verbatim [] = True"
| "verbatim (Fetched p r # Saved q c # evs) = (q = lit ''.git/'' @ p \<and> r = Some c \<and> verbatim evs)"
| "verbatim (Fetched p r # evs) = verbatim evs"
| "verbatim (Saved q c # evs) = False"

text \<open>The files after the writes of a list of events, in order.\<close>

fun replay :: "event list \<Rightarrow> (str \<times> bytes) list \<Rightarrow> (str \<times> bytes) list" where
  "replay [] fs = fs"
| "replay (Saved q c # evs) fs = replay evs (AList.update q c fs)"
| "replay (Fetched p r # evs) fs = replay evs fs"

text \<open>
  The events of downloading the objects \<open>hs\<close> in order: one request of \<open>obj_path h\<close> for
  each, followed by the write of the body under \<open>.git/\<close> when the body is not empty.
\<close>

fun object_events :: "str list \<Rightarrow> event list \<Rightarrow> bool" where
  "object_events [] evs = (evs = [])"
| "object_events (h # hs) [] = False"
| "object_events (h # hs) (Saved q c # evs) = False"
| "object_events (h # hs) (Fetched p r # evs) =
     (p = obj_path h \<and>
      (if truthy r
       then (case evs of
               Saved q c # evs' \<Rightarrow>
                 q = lit ''.git/'' @ obj_path h \<and> r = Some c \<and> object_events hs evs'
             | _ \<Rightarrow> False)
       else object_events hs evs))"

text \<open>
  The events of the loop of \<open>dump_basic_files\<close>, \<open>dump_refs\<close> and \<open>dump_logs\<close> over the
  paths \<open>ps\<close>: one request for each path in order, followed by the write of the body under
  \<open>.git/\<close> and the same path when the body is not empty.
\<close>

fun download_events :: "str list \<Rightarrow> event list \<Rightarrow> bool" where
  "download_events [] evs = (evs = [])"
| "download_events (p # ps) [] = False"
| "download_events (p # ps) (Saved q c # evs) = False"
| "download_events (p # ps) (Fetched p' r # evs) =
     (p' = p \<and>
      (if truthy r
       then (case evs of
               Saved q c # evs' \<Rightarrow>
                 q = lit ''.git/'' @ p \<and> r = Some c \<and> download_events ps evs'
             | _ \<Rightarrow> False)
       else download_events ps evs))"

text \<open>
  The walk the specification describes, read on the events of a run: whenever the bytes of
  an object were saved, every id those bytes reference was requested as an object.
  \<open>references\<close> stands for the specification's decoder (decompress, parse, list the tree
  entries' ids, a commit's tree and parents, a tag's target); the source has none.
\<close>

definition expands_references :: "(bytes \<Rightarrow> str list) \<Rightarrow> event list \<Rightarrow> bool" where
  "expands_references references evs =
     list_all (\<lambda>ev. case ev of
         Fetched p r \<Rightarrow> True
       | Saved q c \<Rightarrow>
           \<not> prefix (lit ''.git/objects/'') q \<or>
           list_all (\<lambda>h. obj_path h \<in> set (fetched_paths evs)) (references c)) evs"

text \<open>
  The ids of a packed-refs file as the specification reads it: one line at a time, a line
  of forty hexadecimal digits, a space and a ref name gives its id, any other line is
  skipped.
\<close>

definition is_hex :: "byte \<Rightarrow> bool" where
  "is_hex b = ((48 \<le> unat b \<and> unat b \<le> 57) \<or> (97 \<le> unat b \<and> unat b \<le> 102))"

fun lines_of :: "bytes \<Rightarrow> bytes \<Rightarrow> bytes list" where
  "lines_of cur [] = (if cur = [] then [] else [cur])"
| "lines_of cur (b # bs) = (if b = 10 then cur # lines_of [] bs else lines_of (cur @ [b]) bs)"

definition packed_refs_ids :: "bytes \<Rightarrow> str list" where
  "packed_refs_ids content =
     map (\<lambda>l. map unat (take 40 l))
       (filter (\<lambda>l. 41 < length l \<and> list_all is_hex (take 40 l) \<and> l ! 40 = 32)
          (lines_of [] content))"

definition seeds_packed_refs :: "state \<Rightarrow> bool" where
  "seeds_packed_refs st =
     (case map_of (files st) (lit ''.git/packed-refs'') of
        None \<Rightarrow> True
      | Some c \<Rightarrow> list_all (\<lambda>h. obj_path h \<in> set (fetched_paths (trace st))) (packed_refs_ids c))"

text \<open>
  An ObjectId as the specification has it and as \<open>bytes.hex\<close> writes it: forty lower-case
  hexadecimal digits.
\<close>

definition object_id :: "str \<Rightarrow> bool" where
  "object_id h = (length h = 40 \<and> list_all (\<lambda>c. c \<in> set (lit ''0123456789abcdef'')) h)"

text \<open>No write of the events is at the path \<open>p\<close> or below it.\<close>

definition untouched :: "str \<Rightarrow> event list \<Rightarrow> bool" where
  "untouched p evs = list_all (\<lambda>ev. case ev of Fetched p' r \<Rightarrow> True
      | Saved q c \<Rightarrow> q \<noteq> p \<and> \<not> prefix (p @ lit ''/'') q) evs"

text \<open>No object path is requested twice.\<close>

definition fetched_at_most_once :: "event list \<Rightarrow> bool" where
  "fetched_at_most_once evs = distinct (filter (prefix (lit ''objects/'')) (fetched_paths evs))"

text \<open>
  A source that does not change: the answer to a request depends on the URL only.
  \<open>response_of\<close> is then what \<open>download_file\<close> returns for a path, \<open>events_of\<close> the events
  of downloading and saving a list of paths, and \<open>mirrors\<close> says that the file saved for a
  path holds what the server answers for it.
\<close>

definition unchanging :: "env \<Rightarrow> bool" where
  "unchanging e = (\<forall>tr url. http_get e tr url = http_get e [] url)"

definition response_of :: "env \<Rightarrow> GitDumper \<Rightarrow> str \<Rightarrow> bytes option" where
  "response_of e d path = fst (download_file e d path \<lparr>files = [], trace = []\<rparr>)"

fun events_of :: "env \<Rightarrow> GitDumper \<Rightarrow> str list \<Rightarrow> event list" where
  "events_of e d [] = []"
| "events_of e d (p # ps) =
     Fetched p (response_of e d p) #
     (if truthy (response_of e d p)
      then Saved (lit ''.git/'' @ p) (the (response_of e d p)) # events_of e d ps
      else events_of e d ps)"

definition mirrors :: "env \<Rightarrow> GitDumper \<Rightarrow> (str \<times> bytes) list \<Rightarrow> str \<Rightarrow> bool" where
  "mirrors e d fs p =
     (truthy (response_of e d p) \<longrightarrow>
        map_of fs (lit ''.git/'' @ p) = Some (the (response_of e d p)))"

text \<open>
  Running twice into the same directory: the second run, a new process, requests the same
  paths and leaves the files as the first left them.
\<close>

definition rerun_same :: "env \<Rightarrow> GitDumper \<Rightarrow> state \<Rightarrow> bool" where
  "rerun_same e d st =
     (let st1 = snd (dump e d st); st2 = snd (dump e d (st1\<lparr>trace := []\<rparr>))
      in set (fetched_paths (trace st2)) = set (fetched_paths (trace st1)) \<and>
         files st2 = files st1)"

section \<open>A test server\<close>

text \<open>
  Stand-ins for the collaborators in the examples below. \<open>ascii_text\<close> is text mode under
  the ASCII codec: a byte above 127 raises, \<open>\r\n\<close> and \<open>\r\<close> are read as \<open>\n\<close>; every
  encoding that extends ASCII agrees with it on ASCII bytes. \<open>static_server\<close> answers 200
  with the body its table has for the URL and 404 otherwise, whatever happened before; the
  URLs are the base URL followed by the path, as \<open>urljoin\<close> gives for a base that ends
  with a slash and a plain relative path.
\<close>

fun universal_newlines :: "str \<Rightarrow> str" where
  "universal_newlines [] = []"
| "universal_newlines [c] = [if c = 13 then 10 else c]"
| "universal_newlines (c # c' # cs) =
     (if c = 13 \<and> c' = 10 then 10 # universal_newlines cs
      else if c = 13 then 10 # universal_newlines (c' # cs)
      else c # universal_newlines (c' # cs))"

definition ascii_text :: "bytes \<Rightarrow> py_error + str" where
  "ascii_text bs =
     (if list_all (\<lambda>b. unat b < 128) bs then Inr (universal_newlines (map unat bs))
      else Inl UnicodeDecodeError)"

definition static_server :: "(str \<times> bytes) list \<Rightarrow> event list \<Rightarrow> str \<Rightarrow> response" where
  "static_server table tr url =
     (case map_of table url of Some body \<Rightarrow> Response 200 body | None \<Rightarrow> Response 404 [])"

definition test_env :: "(str \<times> bytes) list \<Rightarrow> env" where
  "test_env table =
     \<lparr>http_get = static_server table, urljoin = (\<lambda>base path. base @ path),
      read_text = ascii_text, set_order = (\<lambda>xs. xs)\<rparr>"

definition test_dumper :: GitDumper where
  "test_dumper = init (lit ''http://target'') (lit ''./output'')"

definition empty_state :: state where
  "empty_state = \<lparr>files = [], trace = []\<rparr>"

text \<open>A HEAD whose indirection has no space after the colon.\<close>

definition server_nospace :: "(str \<times> bytes) list" where
  "server_nospace = [(lit ''http://target/.git/HEAD'', blit ''ref:refs/heads/master'')]"

text \<open>
  A repository with two commits of the empty tree, as git stores them: branch master at the
  first commit, \<open>packed-refs\<close> listing a branch dev at the second, whose parent is the
  first. The objects are the zlib streams of \<open>commit 112\0tree 4b82...\<close> and so on, named
  by their SHA-1. The index served has 21 bytes, the first 20 the digest of the first
  commit.
\<close>

definition commit_id :: str where
  "commit_id = lit ''ce3754e585a916e42eb5c3e0a89902f1f622c774''"

definition tree_id :: str where
  "tree_id = lit ''4b825dc642cb6eb9a060e54bf8d69288fbee4904''"

definition dev_id :: str where
  "dev_id = lit ''bb76d2051c310e6121452e6c65aec9d34617b260''"

definition commit_object :: bytes where
  "commit_object = [120, 156, 109, 204, 49, 10, 128, 48, 12, 64, 81, 231, 158, 34, 187, 32,
     177, 164, 165, 5, 17, 175, 210, 164, 17, 59, 168, 32, 241, 254, 138, 179, 127, 125, 240,
     229, 220, 247, 102, 48, 98, 232, 236, 82, 5, 226, 228, 67, 149, 72, 94, 56, 42, 231, 130,
     17, 53, 16, 175, 169, 198, 236, 83, 90, 89, 149, 50, 146, 43, 183, 109, 231, 5, 5, 166,
     178, 240, 32, 51, 32, 244, 248, 230, 228, 59, 154, 254, 153, 107, 71, 51, 247, 0, 184,
     122, 32, 161]"

definition tree_object :: bytes where
  "tree_object = [120, 156, 43, 41, 74, 77, 85, 48, 96, 0, 0, 10, 44, 2, 1]"

definition dev_object :: bytes where
  "dev_object = [120, 156, 109, 206, 49, 14, 194, 48, 12, 70, 97, 230, 156, 194, 59, 18, 74,
     92, 39, 77, 36, 132, 184, 138, 237, 254, 17, 12, 165, 168, 10, 156, 31, 196, 204, 91,
     191, 229, 249, 182, 174, 247, 65, 41, 243, 97, 236, 0, 137, 85, 206, 139, 23, 97, 183, 2,
     107, 26, 75, 68, 22, 235, 117, 41, 141, 107, 237, 6, 72, 139, 18, 158, 186, 227, 49, 200,
     49, 205, 89, 144, 107, 214, 150, 10, 132, 97, 217, 39, 68, 173, 173, 69, 238, 169, 23,
     102, 159, 103, 9, 250, 26, 183, 109, 39, 165, 179, 94, 237, 228, 23, 74, 116, 140, 223,
     130, 255, 14, 6, 254, 89, 88, 240, 14, 31, 13, 78, 45, 130]"

definition head_master :: bytes where
  "head_master = blit ''ref: refs/heads/master'' @ [10]"

definition ref_master :: bytes where
  "ref_master = blit ''ce3754e585a916e42eb5c3e0a89902f1f622c774'' @ [10]"

definition index_master :: bytes where
  "index_master = [206, 55, 84, 229, 133, 169, 22, 228, 46, 181, 195, 224, 168, 153, 2, 241,
     246, 34, 199, 116, 0]"

definition packed_refs_dev :: bytes where
  "packed_refs_dev = blit ''# pack-refs with: peeled fully-peeled sorted '' @ [10] @
     blit ''bb76d2051c310e6121452e6c65aec9d34617b260 refs/heads/dev'' @ [10]"

definition server_master :: "(str \<times> bytes) list" where
  "server_master =
     [(lit ''http://target/.git/HEAD'', head_master),
      (lit ''http://target/.git/refs/heads/master'', ref_master),
      (lit ''http://target/.git/index'', index_master),
      (lit ''http://target/.git/packed-refs'', packed_refs_dev),
      (lit ''http://target/.git/objects/ce/3754e585a916e42eb5c3e0a89902f1f622c774'',
         commit_object),
      (lit ''http://target/.git/objects/4b/825dc642cb6eb9a060e54bf8d69288fbee4904'',
         tree_object),
      (lit ''http://target/.git/objects/bb/76d2051c310e6121452e6c65aec9d34617b260'',
         dev_object)]"

text \<open>What a run on this server, into an empty directory, requests, writes and leaves.\<close>

definition master_events :: "event list" where
  "master_events =
     [Fetched (lit ''HEAD'') (Some head_master),
      Fetched (lit ''HEAD'') (Some head_master),
      Saved (lit ''.git/HEAD'') head_master,
      Fetched (lit ''config'') None,
      Fetched (lit ''description'') None,
      Fetched (lit ''index'') (Some index_master),
      Saved (lit ''.git/index'') index_master,
      Fetched (lit ''packed-refs'') (Some packed_refs_dev),
      Saved (lit ''.git/packed-refs'') packed_refs_dev,
      Fetched (lit ''FETCH_HEAD'') None,
      Fetched (lit ''ORIG_HEAD'') None,
      Fetched (lit ''refs/heads/master'') (Some ref_master),
      Saved (lit ''.git/refs/heads/master'') ref_master,
      Fetched (lit ''refs/heads/main'') None,
      Fetched (lit ''refs/remotes/origin/master'') None,
      Fetched (lit ''refs/remotes/origin/main'') None,
      Fetched (lit ''refs/remotes/origin/HEAD'') None,
      Fetched (lit ''refs/stash'') None,
      Fetched (lit ''logs/HEAD'') None,
      Fetched (lit ''logs/refs/heads/master'') None,
      Fetched (lit ''logs/refs/heads/main'') None,
      Fetched (lit ''logs/refs/remotes/origin/master'') None,
      Fetched (lit ''logs/refs/remotes/origin/main'') None,
      Fetched (lit ''objects/ce/3754e585a916e42eb5c3e0a89902f1f622c774'') (Some commit_object),
      Saved (lit ''.git/objects/ce/3754e585a916e42eb5c3e0a89902f1f622c774'') commit_object,
      Fetched (lit ''objects/ce/3754e585a916e42eb5c3e0a89902f1f622c774'') (Some commit_object),
      Saved (lit ''.git/objects/ce/3754e585a916e42eb5c3e0a89902f1f622c774'') commit_object]"

definition master_files :: "(str \<times> bytes) list" where
  "master_files =
     [(lit ''.git/HEAD'', head_master),
      (lit ''.git/index'', index_master),
      (lit ''.git/packed-refs'', packed_refs_dev),
      (lit ''.git/refs/heads/master'', ref_master),
      (lit ''.git/objects/ce/3754e585a916e42eb5c3e0a89902f1f622c774'', commit_object)]"

text \<open>
  The object graph of this repository, as the specification's decoder would read it from
  the stored bytes: the first commit references the empty tree, the second the empty tree
  and the first commit, the tree nothing.
\<close>

definition repository_references :: "bytes \<Rightarrow> str list" where
  "repository_references raw =
     (if raw = commit_object then [tree_id]
      else if raw = dev_object then [tree_id, commit_id]
      else [])"

text \<open>
  A server whose HEAD names, as its ref, the path of an object file, and which serves at
  that path a line of text: the id of the second commit.
\<close>

definition head_object :: bytes where
  "head_object = blit ''ref: objects/ce/3754e585a916e42eb5c3e0a89902f1f622c774'' @ [10]"

definition text_object :: bytes where
  "text_object = blit ''bb76d2051c310e6121452e6c65aec9d34617b260'' @ [10]"

definition server_rerun :: "(str \<times> bytes) list" where
  "server_rerun =
     [(lit ''http://target/.git/HEAD'', head_object),
      (lit ''http://target/.git/refs/heads/master'', ref_master),
      (lit ''http://target/.git/objects/ce/3754e585a916e42eb5c3e0a89902f1f622c774'',
         text_object),
      (lit ''http://target/.git/objects/bb/76d2051c310e6121452e6c65aec9d34617b260'',
         dev_object)]"

text \<open>An index file of 21 bytes: two windows of 20 bytes fit, at offsets 0 and 1.\<close>

definition index21 :: bytes where
  "index21 = [0, 1, 2, 3, 4, 5, 6, 7, 8, 9, 10, 11, 12, 13, 14, 15, 16, 17, 18, 19, 20]"

section \<open>The events of a run\<close>

declare scan_index.simps [simp del]

lemma truthy_iff: "truthy r \<longleftrightarrow> (\<exists>c. r = Some c \<and> c \<noteq> [])"
  by (cases r) auto

lemma is_file_iff: "is_file fs p \<longleftrightarrow> map_of fs p \<noteq> None"
  by (simp add: is_file_def split: option.splits)

lemma set_iter_set: "set (set_iter e xs) = set xs"
  by (simp add: set_iter_def Let_def)

lemma set_iter_distinct: "distinct (set_iter e xs)"
  by (simp add: set_iter_def Let_def)

lemma set_iter_single: "set_iter e [x] = [x]"
proof -
  have "set (set_iter e [x]) = {x}" "distinct (set_iter e [x])"
    by (simp_all add: set_iter_set set_iter_distinct)
  then have "length (set_iter e [x]) = 1"
    using distinct_card [of "set_iter e [x]"] by simp
  then obtain y where "set_iter e [x] = [y]"
    by (cases "set_iter e [x]") auto
  with \<open>set (set_iter e [x]) = {x}\<close> show ?thesis by simp
qed

lemma download_file_state:
  "download_file e d p st = (r, st') \<Longrightarrow> st' = st\<lparr>trace := trace st @ [Fetched p r]\<rparr>"
  by (auto simp: download_file_def Let_def)

lemma verbatim_Fetched: "verbatim evs \<Longrightarrow> verbatim (Fetched p r # evs)"
  by (cases evs rule: verbatim.cases) auto

lemma verbatim_append: "verbatim xs \<Longrightarrow> verbatim ys \<Longrightarrow> verbatim (xs @ ys)"
  by (induction xs rule: verbatim.induct) (auto simp: verbatim_Fetched)

lemma replay_append: "replay (xs @ ys) fs = replay ys (replay xs fs)"
  by (induction xs fs rule: replay.induct) auto

lemma fetched_paths_append: "fetched_paths (xs @ ys) = fetched_paths xs @ fetched_paths ys"
  by (induction xs rule: fetched_paths.induct) auto

lemma download_each_events:
  "\<exists>evs. trace (download_each e d ps st) = trace st @ evs \<and>
         files (download_each e d ps st) = replay evs (files st) \<and>
         verbatim evs \<and> fetched_paths evs = ps"
proof (induction ps arbitrary: st)
  case Nil
  show ?case by simp
next
  case (Cons p ps)
  obtain r st1 where dl: "download_file e d p st = (r, st1)"
    by (cases "download_file e d p st")
  then have st1: "st1 = st\<lparr>trace := trace st @ [Fetched p r]\<rparr>"
    by (rule download_file_state)
  show ?case
  proof (cases "truthy r")
    case True
    then obtain c where r: "r = Some c" by (cases r) auto
    define st2 where "st2 = save_file (lit ''.git/'' @ p) c st1"
    from Cons.IH [of st2] obtain evs where evs:
      "trace (download_each e d ps st2) = trace st2 @ evs"
      "files (download_each e d ps st2) = replay evs (files st2)"
      "verbatim evs" "fetched_paths evs = ps"
      by blast
    let ?evs = "Fetched p r # Saved (lit ''.git/'' @ p) c # evs"
    have "download_each e d (p # ps) st = download_each e d ps st2"
      using dl True r by (simp add: st2_def)
    moreover have "trace st2 = trace st @ [Fetched p r, Saved (lit ''.git/'' @ p) c]"
      by (simp add: st2_def st1 save_file_def)
    moreover have "files st2 = AList.update (lit ''.git/'' @ p) c (files st)"
      by (simp add: st2_def st1 save_file_def)
    ultimately have
      "trace (download_each e d (p # ps) st) = trace st @ ?evs \<and>
       files (download_each e d (p # ps) st) = replay ?evs (files st) \<and>
       verbatim ?evs \<and> fetched_paths ?evs = p # ps"
      using evs r by simp
    then show ?thesis by blast
  next
    case False
    from Cons.IH [of st1] obtain evs where evs:
      "trace (download_each e d ps st1) = trace st1 @ evs"
      "files (download_each e d ps st1) = replay evs (files st1)"
      "verbatim evs" "fetched_paths evs = ps"
      by blast
    let ?evs = "Fetched p r # evs"
    have "download_each e d (p # ps) st = download_each e d ps st1"
      using dl False by simp
    then have
      "trace (download_each e d (p # ps) st) = trace st @ ?evs \<and>
       files (download_each e d (p # ps) st) = replay ?evs (files st) \<and>
       verbatim ?evs \<and> fetched_paths ?evs = p # ps"
      using evs by (simp add: st1 verbatim_Fetched)
    then show ?thesis by blast
  qed
qed

lemma download_each_download_events:
  "\<exists>evs. trace (download_each e d ps st) = trace st @ evs \<and>
         files (download_each e d ps st) = replay evs (files st) \<and>
         download_events ps evs"
proof (induction ps arbitrary: st)
  case Nil
  show ?case by simp
next
  case (Cons p ps)
  obtain r st1 where dl: "download_file e d p st = (r, st1)"
    by (cases "download_file e d p st")
  then have st1: "st1 = st\<lparr>trace := trace st @ [Fetched p r]\<rparr>"
    by (rule download_file_state)
  show ?case
  proof (cases "truthy r")
    case True
    then obtain c where r: "r = Some c" by (cases r) auto
    define st2 where "st2 = save_file (lit ''.git/'' @ p) c st1"
    from Cons.IH [of st2] obtain evs where evs:
      "trace (download_each e d ps st2) = trace st2 @ evs"
      "files (download_each e d ps st2) = replay evs (files st2)"
      "download_events ps evs"
      by blast
    let ?evs = "Fetched p r # Saved (lit ''.git/'' @ p) c # evs"
    have "download_each e d (p # ps) st = download_each e d ps st2"
      using dl True r by (simp add: st2_def)
    moreover have "trace st2 = trace st @ [Fetched p r, Saved (lit ''.git/'' @ p) c]"
      by (simp add: st2_def st1 save_file_def)
    moreover have "files st2 = AList.update (lit ''.git/'' @ p) c (files st)"
      by (simp add: st2_def st1 save_file_def)
    ultimately have
      "trace (download_each e d (p # ps) st) = trace st @ ?evs \<and>
       files (download_each e d (p # ps) st) = replay ?evs (files st) \<and>
       download_events (p # ps) ?evs"
      using evs r True by simp
    then show ?thesis by blast
  next
    case False
    from Cons.IH [of st1] obtain evs where evs:
      "trace (download_each e d ps st1) = trace st1 @ evs"
      "files (download_each e d ps st1) = replay evs (files st1)"
      "download_events ps evs"
      by blast
    let ?evs = "Fetched p r # evs"
    have "download_each e d (p # ps) st = download_each e d ps st1"
      using dl False by simp
    then have
      "trace (download_each e d (p # ps) st) = trace st @ ?evs \<and>
       files (download_each e d (p # ps) st) = replay ?evs (files st) \<and>
       download_events (p # ps) ?evs"
      using evs False by (simp add: st1)
    then show ?thesis by blast
  qed
qed


lemma object_events_paths: "object_events hs evs \<Longrightarrow> fetched_paths evs = map obj_path hs"
proof (induction hs evs rule: object_events.induct)
  case (4 h hs p r evs)
  show ?case
  proof (cases "truthy r")
    case True
    with 4 show ?thesis by (auto split: list.splits event.splits)
  next
    case False
    with 4 show ?thesis by auto
  qed
qed auto

lemma dump_each_events:
  "\<exists>evs. trace (dump_each e d hs st) = trace st @ evs \<and>
         files (dump_each e d hs st) = replay evs (files st) \<and>
         object_events hs evs"
proof (induction hs arbitrary: st)
  case Nil
  show ?case by simp
next
  case (Cons h hs)
  obtain r st1 where dl: "download_file e d (obj_path h) st = (r, st1)"
    by (cases "download_file e d (obj_path h) st")
  then have st1: "st1 = st\<lparr>trace := trace st @ [Fetched (obj_path h) r]\<rparr>"
    by (rule download_file_state)
  show ?case
  proof (cases "truthy r")
    case True
    then obtain c where r: "r = Some c" by (cases r) auto
    define st2 where "st2 = save_file (lit ''.git/'' @ obj_path h) c st1"
    from Cons.IH [of st2] obtain evs where evs:
      "trace (dump_each e d hs st2) = trace st2 @ evs"
      "files (dump_each e d hs st2) = replay evs (files st2)"
      "object_events hs evs"
      by blast
    let ?evs = "Fetched (obj_path h) r # Saved (lit ''.git/'' @ obj_path h) c # evs"
    have "dump_each e d (h # hs) st = dump_each e d hs st2"
      using dl True r by (simp add: st2_def dump_object_def)
    moreover have "trace st2 = trace st @ [Fetched (obj_path h) r, Saved (lit ''.git/'' @ obj_path h) c]"
      by (simp add: st2_def st1 save_file_def)
    moreover have "files st2 = AList.update (lit ''.git/'' @ obj_path h) c (files st)"
      by (simp add: st2_def st1 save_file_def)
    ultimately have
      "trace (dump_each e d (h # hs) st) = trace st @ ?evs \<and>
       files (dump_each e d (h # hs) st) = replay ?evs (files st) \<and>
       object_events (h # hs) ?evs"
      using evs r True by simp
    then show ?thesis by blast
  next
    case False
    from Cons.IH [of st1] obtain evs where evs:
      "trace (dump_each e d hs st1) = trace st1 @ evs"
      "files (dump_each e d hs st1) = replay evs (files st1)"
      "object_events hs evs"
      by blast
    let ?evs = "Fetched (obj_path h) r # evs"
    have "dump_each e d (h # hs) st = dump_each e d hs st1"
      using dl False by (simp add: dump_object_def)
    then have
      "trace (dump_each e d (h # hs) st) = trace st @ ?evs \<and>
       files (dump_each e d (h # hs) st) = replay ?evs (files st) \<and>
       object_events (h # hs) ?evs"
      using evs False by (simp add: st1)
    then show ?thesis by blast
  qed
qed

lemma check_git_exposed_state:
  "\<exists>r. snd (check_git_exposed e d st) = st\<lparr>trace := trace st @ [Fetched (lit ''HEAD'') r]\<rparr> \<and>
       fst (check_git_exposed e d st) = (truthy r \<and> contains (blit ''ref:'') (the r))"
proof -
  obtain r st1 where dl: "download_file e d (lit ''HEAD'') st = (r, st1)"
    by (cases "download_file e d (lit ''HEAD'') st")
  then have "st1 = st\<lparr>trace := trace st @ [Fetched (lit ''HEAD'') r]\<rparr>"
    by (rule download_file_state)
  with dl show ?thesis by (auto simp: check_git_exposed_def)
qed

lemma before_objects_events:
  "\<exists>evs. trace (before_objects e d st) = trace st @ evs \<and>
         files (before_objects e d st) = replay evs (files st) \<and>
         verbatim evs \<and>
         fetched_paths evs = lit ''HEAD'' # basic_files @ ref_paths @ log_paths"
proof -
  define st1 where "st1 = snd (check_git_exposed e d st)"
  define st2 where "st2 = dump_basic_files e d st1"
  define st3 where "st3 = dump_refs e d st2"
  define st4 where "st4 = dump_logs e d st3"
  obtain r where st1: "st1 = st\<lparr>trace := trace st @ [Fetched (lit ''HEAD'') r]\<rparr>"
    using check_git_exposed_state [of e d st] by (auto simp: st1_def)
  obtain evs2 where evs2: "trace st2 = trace st1 @ evs2" "files st2 = replay evs2 (files st1)"
      "verbatim evs2" "fetched_paths evs2 = basic_files"
    using download_each_events [of e d basic_files st1] by (auto simp: st2_def dump_basic_files_def)
  obtain evs3 where evs3: "trace st3 = trace st2 @ evs3" "files st3 = replay evs3 (files st2)"
      "verbatim evs3" "fetched_paths evs3 = ref_paths"
    using download_each_events [of e d ref_paths st2] by (auto simp: st3_def dump_refs_def)
  obtain evs4 where evs4: "trace st4 = trace st3 @ evs4" "files st4 = replay evs4 (files st3)"
      "verbatim evs4" "fetched_paths evs4 = log_paths"
    using download_each_events [of e d log_paths st3] by (auto simp: st4_def dump_logs_def)
  let ?evs = "Fetched (lit ''HEAD'') r # evs2 @ evs3 @ evs4"
  have "trace st4 = trace st @ ?evs"
    by (simp add: evs4 evs3 evs2 st1)
  moreover have "files st4 = replay ?evs (files st)"
    by (simp add: evs4 evs3 evs2 st1 replay_append)
  moreover have "verbatim ?evs"
    by (intro verbatim_Fetched verbatim_append evs2 evs3 evs4)
  moreover have "fetched_paths ?evs = lit ''HEAD'' # basic_files @ ref_paths @ log_paths"
    by (simp add: fetched_paths_append evs2 evs3 evs4)
  moreover have "before_objects e d st = st4"
    by (simp add: before_objects_def st4_def st3_def st2_def st1_def)
  ultimately show ?thesis by blast
qed

lemma dump_cases:
  "dump e d st =
     (if \<not> fst (check_git_exposed e d st) then (Inr False, snd (check_git_exposed e d st))
      else (case ref_hashes e (files (before_objects e d st)) of
              Inl x \<Rightarrow> (Inl x, before_objects e d st)
            | Inr hs1 \<Rightarrow>
                (let st5 = dump_each e d (set_iter e hs1) (before_objects e d st)
                 in case parse_index_file e st5 of
                      Inl x \<Rightarrow> (Inl x, st5)
                    | Inr hs2 \<Rightarrow>
                        (Inr True, dump_each e d (filter (\<lambda>h. length h = 40) hs2) st5))))"
  by (simp add: dump_def before_objects_def dump_objects_from_refs_def
      dump_objects_from_index_def Let_def split: prod.splits sum.splits)

lemma is_file_update: "is_file (AList.update k v fs) p \<longleftrightarrow> p = k \<or> is_file fs p"
  by (simp add: is_file_iff update_conv')

lemma has_below_update:
  "list_ex (\<lambda>kv. prefix (pre :: str) (fst kv)) (AList.update k v fs) \<longleftrightarrow>
     prefix pre k \<or> list_ex (\<lambda>kv. prefix pre (fst kv)) fs"
proof -
  have "(\<exists>k'\<in>fst ` set (AList.update k v fs). prefix pre k') \<longleftrightarrow>
      prefix pre k \<or> (\<exists>k'\<in>fst ` set fs. prefix pre k')"
    unfolding dom_update by blast
  then show ?thesis by (simp add: list_ex_iff)
qed

lemma is_dir_update:
  "k \<noteq> p \<Longrightarrow> \<not> prefix (p @ lit ''/'') k \<Longrightarrow> is_dir (AList.update k v fs) p = is_dir fs p"
  by (auto simp: is_dir_def is_file_update has_below_update)

lemma path_exists_update:
  "k \<noteq> p \<Longrightarrow> \<not> prefix (p @ lit ''/'') k \<Longrightarrow>
   path_exists (AList.update k v fs) p = path_exists fs p"
  by (auto simp: path_exists_def is_file_update is_dir_update)

lemma read_bytes_update:
  "k \<noteq> p \<Longrightarrow> \<not> prefix (p @ lit ''/'') k \<Longrightarrow>
   read_bytes (AList.update k v fs) p = read_bytes fs p"
  by (simp add: read_bytes_def update_conv' is_dir_update)

lemma rglob_files_update:
  "\<not> prefix (dir @ lit ''/'') k \<Longrightarrow> rglob_files (AList.update k v fs) dir = rglob_files fs dir"
  by (simp add: rglob_files_def update_keys)

lemma replay_untouched:
  "untouched p evs \<Longrightarrow>
   path_exists (replay evs fs) p = path_exists fs p \<and> read_bytes (replay evs fs) p = read_bytes fs p"
  by (induction evs fs rule: replay.induct)
     (auto simp: untouched_def path_exists_update read_bytes_update)

lemma object_events_saved:
  "object_events hs evs \<Longrightarrow> Saved q c \<in> set evs \<Longrightarrow> \<exists>h. q = lit ''.git/'' @ obj_path h"
proof (induction hs evs rule: object_events.induct)
  case (4 h hs p r evs)
  show ?case
  proof (cases "truthy r")
    case True
    with 4 show ?thesis by (auto split: list.splits event.splits)
  next
    case False
    with 4 show ?thesis by auto
  qed
qed auto

lemma object_events_untouched:
  assumes "object_events hs evs"
    and "\<And>h. lit ''.git/'' @ obj_path h \<noteq> p \<and> \<not> prefix (p @ lit ''/'') (lit ''.git/'' @ obj_path h)"
  shows "untouched p evs"
  unfolding untouched_def list_all_iff
proof
  fix ev assume "ev \<in> set evs"
  show "case ev of Fetched p' r \<Rightarrow> True | Saved q c \<Rightarrow> q \<noteq> p \<and> \<not> prefix (p @ lit ''/'') q"
  proof (cases ev)
    case (Fetched p' r)
    then show ?thesis by simp
  next
    case (Saved q c)
    with \<open>ev \<in> set evs\<close> assms(1) obtain h where "q = lit ''.git/'' @ obj_path h"
      using object_events_saved by blast
    with Saved assms(2) [of h] show ?thesis by simp
  qed
qed

lemma object_path_not_index:
  "lit ''.git/'' @ obj_path h \<noteq> path_join (lit ''.git'') (lit ''index'') \<and>
   \<not> prefix (path_join (lit ''.git'') (lit ''index'') @ lit ''/'') (lit ''.git/'' @ obj_path h)"
  by (simp add: obj_path_def path_join_def lit_def)

lemma parse_index_file_files:
  "files st' = files st \<Longrightarrow> parse_index_file e st' = parse_index_file e st"
  by (simp add: parse_index_file_def Let_def cong: if_cong)

lemma parse_index_file_after_objects:
  assumes "object_events hs evs" and "files st' = replay evs (files st)"
  shows "parse_index_file e st' = parse_index_file e st"
proof -
  have "untouched (path_join (lit ''.git'') (lit ''index'')) evs"
    using assms(1) object_path_not_index by (rule object_events_untouched)
  from replay_untouched [OF this, of "files st"] assms(2) show ?thesis
    by (simp add: parse_index_file_def Let_def cong: if_cong)
qed

lemma dump_run:
  assumes "dump e d st = (Inr True, st')"
  shows "\<exists>hs1 hs2 evs0 evs1 evs2.
     ref_hashes e (files (before_objects e d st)) = Inr hs1 \<and>
     parse_index_file e (after_refs e d st) = Inr hs2 \<and>
     trace (before_objects e d st) = trace st @ evs0 \<and>
     trace (after_refs e d st) = trace st @ evs0 @ evs1 \<and>
     trace st' = trace st @ evs0 @ evs1 @ evs2 \<and>
     fetched_paths evs0 = lit ''HEAD'' # basic_files @ ref_paths @ log_paths \<and>
     object_events (set_iter e hs1) evs1 \<and>
     object_events (filter (\<lambda>h. length h = 40) hs2) evs2"
proof -
  define st4 where "st4 = before_objects e d st"
  obtain evs4 where evs4: "trace st4 = trace st @ evs4"
      "fetched_paths evs4 = lit ''HEAD'' # basic_files @ ref_paths @ log_paths"
    using before_objects_events [of e d st] by (auto simp: st4_def)
  from assms have exposed: "fst (check_git_exposed e d st)"
    by (auto simp: dump_cases split: if_splits)
  with assms obtain hs1 where hs1: "ref_hashes e (files st4) = Inr hs1"
    by (cases "ref_hashes e (files st4)") (auto simp: dump_cases st4_def)
  define st5 where "st5 = dump_each e d (set_iter e hs1) st4"
  have after: "after_refs e d st = st5"
    by (simp add: after_refs_def dump_objects_from_refs_def st4_def [symmetric] hs1 st5_def)
  obtain evs5 where evs5: "trace st5 = trace st4 @ evs5"
      "object_events (set_iter e hs1) evs5"
    using dump_each_events [of e d "set_iter e hs1" st4] by (auto simp: st5_def)
  from assms exposed hs1 obtain hs2 where hs2: "parse_index_file e st5 = Inr hs2"
    by (cases "parse_index_file e st5") (auto simp: dump_cases st4_def st5_def)
  define st6 where "st6 = dump_each e d (filter (\<lambda>h. length h = 40) hs2) st5"
  obtain evs6 where evs6: "trace st6 = trace st5 @ evs6"
      "object_events (filter (\<lambda>h. length h = 40) hs2) evs6"
    using dump_each_events [of e d "filter (\<lambda>h. length h = 40) hs2" st5]
    by (auto simp: st6_def)
  from assms exposed hs1 hs2 have "st' = st6"
    by (simp add: dump_cases st4_def st5_def st6_def)
  then have "trace st' = trace st @ evs4 @ evs5 @ evs6"
    by (simp add: evs6 evs5 evs4)
  moreover have "trace st5 = trace st @ evs4 @ evs5"
    by (simp add: evs5 evs4)
  ultimately show ?thesis
    using hs1 hs2 evs4 evs5(2) evs6(2) unfolding after st4_def [symmetric] by blast
qed

lemma dump_basic_events:
  assumes "fst (check_git_exposed e d st)"
  shows "\<exists>r evs rest. trace (snd (dump e d st)) = trace st @ Fetched (lit ''HEAD'') r # evs @ rest \<and>
     download_events basic_files evs"
proof -
  define st1 where "st1 = snd (check_git_exposed e d st)"
  define st2 where "st2 = dump_basic_files e d st1"
  define st4 where "st4 = before_objects e d st"
  obtain r where st1: "st1 = st\<lparr>trace := trace st @ [Fetched (lit ''HEAD'') r]\<rparr>"
    using check_git_exposed_state [of e d st] by (auto simp: st1_def)
  obtain evs2 where evs2: "trace st2 = trace st1 @ evs2" "download_events basic_files evs2"
    using download_each_download_events [of e d basic_files st1]
    by (auto simp: st2_def dump_basic_files_def)
  obtain evs3 where evs3: "trace (dump_refs e d st2) = trace st2 @ evs3"
    using download_each_events [of e d ref_paths st2] by (auto simp: dump_refs_def)
  obtain evs4 where evs4: "trace (dump_logs e d (dump_refs e d st2)) = trace (dump_refs e d st2) @ evs4"
    using download_each_events [of e d log_paths "dump_refs e d st2"] by (auto simp: dump_logs_def)
  have "st4 = dump_logs e d (dump_refs e d st2)"
    by (simp add: st4_def before_objects_def st1_def st2_def)
  moreover have "trace st1 = trace st @ [Fetched (lit ''HEAD'') r]"
    by (simp add: st1)
  ultimately have t4: "trace st4 = trace st @ Fetched (lit ''HEAD'') r # evs2 @ (evs3 @ evs4)"
    by (simp add: evs4 evs3 evs2)
  have "\<exists>rest. trace (snd (dump e d st)) = trace st4 @ rest"
  proof (cases "ref_hashes e (files st4)")
    case (Inl x)
    with assms have "snd (dump e d st) = st4"
      by (simp add: dump_cases st4_def)
    then show ?thesis by simp
  next
    case (Inr hs1)
    define st5 where "st5 = dump_each e d (set_iter e hs1) st4"
    obtain evs5 where evs5: "trace st5 = trace st4 @ evs5"
      using dump_each_events [of e d "set_iter e hs1" st4] by (auto simp: st5_def)
    show ?thesis
    proof (cases "parse_index_file e st5")
      case (Inl x)
      with assms Inr have "snd (dump e d st) = st5"
        by (simp add: dump_cases st4_def st5_def)
      with evs5 show ?thesis by simp
    next
      case (Inr hs2)
      define st6 where "st6 = dump_each e d (filter (\<lambda>h. length h = 40) hs2) st5"
      obtain evs6 where evs6: "trace st6 = trace st5 @ evs6"
        using dump_each_events [of e d "filter (\<lambda>h. length h = 40) hs2" st5]
        by (auto simp: st6_def)
      from assms \<open>ref_hashes e (files st4) = Inr hs1\<close> Inr have "snd (dump e d st) = st6"
        by (simp add: dump_cases st4_def st5_def st6_def)
      with evs6 evs5 show ?thesis by simp
    qed
  qed
  then obtain rest where "trace (snd (dump e d st)) = trace st4 @ rest" ..
  then have "trace (snd (dump e d st)) = trace st @ Fetched (lit ''HEAD'') r # evs2 @ (evs3 @ evs4 @ rest)"
    by (simp add: t4)
  with evs2(2) show ?thesis by blast
qed

lemma object_events_append:
  "object_events hs1 evs1 \<Longrightarrow> object_events hs2 evs2 \<Longrightarrow> object_events (hs1 @ hs2) (evs1 @ evs2)"
proof (induction hs1 evs1 rule: object_events.induct)
  case (4 h hs p r evs)
  show ?case
  proof (cases "truthy r")
    case True
    with 4 show ?thesis by (auto split: list.splits event.splits)
  next
    case False
    with 4 show ?thesis by auto
  qed
qed auto

lemma fixed_paths_not_objects:
  "filter (prefix (lit ''objects/'')) (lit ''HEAD'' # basic_files @ ref_paths @ log_paths) = []"
  by (simp add: basic_files_def ref_paths_def log_paths_def lit_def)

lemma obj_path_prefix: "prefix (lit ''objects/'') (obj_path h)"
  by (simp add: obj_path_def)

lemma obj_path_inj: "obj_path h = obj_path h' \<Longrightarrow> h = h'"
proof -
  assume "obj_path h = obj_path h'"
  then have eq: "take 2 h @ lit ''/'' @ drop 2 h = take 2 h' @ lit ''/'' @ drop 2 h'"
    by (simp add: obj_path_def)
  then have "length (take 2 h @ lit ''/'' @ drop 2 h) = length (take 2 h' @ lit ''/'' @ drop 2 h')"
    by simp
  then have "length h = length h'"
    by (simp add: lit_def)
  then have "length (take 2 h) = length (take 2 h')"
    by simp
  with eq have "take 2 h = take 2 h'" "drop 2 h = drop 2 h'"
    by (simp_all add: lit_def)
  then show "h = h'"
    by (metis append_take_drop_id)
qed

lemma count_distinct: "distinct xs \<Longrightarrow> count_list xs x = (if x \<in> set xs then 1 else 0)"
  by (induction xs) auto

lemma count_obj_paths:
  "distinct hs \<Longrightarrow> count_list (map obj_path hs) (obj_path h) = (if h \<in> set hs then 1 else 0)"
proof -
  assume "distinct hs"
  have "inj obj_path"
    by (rule injI) (rule obj_path_inj)
  then have "count_list (map obj_path hs) (obj_path h) = count_list hs h"
    by (rule count_list_map_conv)
  with \<open>distinct hs\<close> show ?thesis by (simp add: count_distinct)
qed

lemma count_fixed_paths:
  "count_list (lit ''HEAD'' # basic_files @ ref_paths @ log_paths) (obj_path h) = 0"
proof -
  have "\<forall>p \<in> set (lit ''HEAD'' # basic_files @ ref_paths @ log_paths). \<not> prefix (lit ''objects/'') p"
    using fixed_paths_not_objects unfolding filter_empty_conv .
  then have "obj_path h \<notin> set (lit ''HEAD'' # basic_files @ ref_paths @ log_paths)"
    using obj_path_prefix [of h] by blast
  then show ?thesis by (rule count_notin)
qed

lemma parse_index_file_distinct: "parse_index_file e st = Inr hs \<Longrightarrow> distinct hs"
  by (auto simp: parse_index_file_def Let_def set_iter_distinct split: if_splits sum.splits)

section \<open>Plain paths\<close>

text \<open>
  The object path of an ObjectId is plain, every candidate of the index is an ObjectId,
  and so every path that a completed run requests is plain when the ids it read from the
  refs are ObjectIds.
\<close>

lemma split_from_slash_free:
  "47 \<notin> set xs \<Longrightarrow> split_from [47] cur xs = [cur @ xs]"
  by (induction xs arbitrary: cur) auto

lemma split_from_slash:
  "47 \<notin> set xs \<Longrightarrow> split_from [47] cur (xs @ 47 # rest) = (cur @ xs) # split_from [47] [] rest"
  by (induction xs arbitrary: cur) auto

lemma object_id_chars:
  assumes "object_id h"
  shows "47 \<notin> set h" "46 \<notin> set h" "length h = 40"
  using assms by (auto simp: object_id_def list_all_iff lit_def)

lemma object_id_plain:
  assumes "object_id h"
  shows "plain_path (obj_path h)"
proof -
  note h = object_id_chars [OF assms]
  have t: "47 \<notin> set (take 2 h)" "46 \<notin> set (take 2 h)" "47 \<notin> set (drop 2 h)" "46 \<notin> set (drop 2 h)"
    using h by (auto dest: in_set_takeD in_set_dropD)
  have o: "47 \<notin> set (lit ''objects'')"
    by (simp add: lit_def)
  have "obj_path h = lit ''objects'' @ 47 # (take 2 h @ 47 # drop 2 h)"
    by (simp add: obj_path_def lit_def)
  then have "split (obj_path h) (lit ''/'') = [lit ''objects'', take 2 h, drop 2 h]"
    using split_from_slash [OF o, of "[]" "take 2 h @ 47 # drop 2 h"]
      split_from_slash [OF t(1), of "[]" "drop 2 h"] split_from_slash_free [OF t(3), of "[]"]
    by (simp add: split_def lit_def)
  moreover have "take 2 h \<noteq> []" "drop 2 h \<noteq> []" "take 2 h \<noteq> lit ''.''" "take 2 h \<noteq> lit ''..''"
      "drop 2 h \<noteq> lit ''.''" "drop 2 h \<noteq> lit ''..''"
    using h t by (auto simp: lit_def)
  ultimately show ?thesis
    by (simp add: plain_path_def lit_def)
qed

lemma hexdigit_hex:
  assumes "k < 16"
  shows "hexdigit k \<in> set (lit ''0123456789abcdef'')"
proof (cases "k < 10")
  case True
  then have "k \<in> {0, 1, 2, 3, 4, 5, 6, 7, 8, 9}"
    by auto
  then show ?thesis
    by (auto simp: hexdigit_def lit_def)
next
  case False
  with assms have "k \<in> {10, 11, 12, 13, 14, 15}"
    by auto
  then show ?thesis
    by (auto simp: hexdigit_def lit_def)
qed

lemma hex_chars: "list_all (\<lambda>c. c \<in> set (lit ''0123456789abcdef'')) (hex bs)"
proof -
  have "unat b < 256" for b :: byte
    using unsigned_less [of b, where ?'a = nat] by simp
  then have "unat b div 16 < 16" for b :: byte
    using less_mult_imp_div_less [of "unat b" 16 16] by simp
  then show ?thesis
    unfolding hex_def list_all_iff by (auto intro!: hexdigit_hex)
qed

lemma scan_index_object_ids:
  "\<forall>h\<in>set hashes. object_id h \<Longrightarrow> \<forall>h\<in>set (scan_index content i hashes). object_id h"
proof (induction content i hashes rule: scan_index.induct)
  case (1 content i hashes)
  show ?case
  proof (cases "int i < int (length content) - 20")
    case True
    let ?h = "hex (take 20 (drop i content))"
    have "\<forall>h\<in>set (if length ?h = 40 then hashes @ [?h] else hashes). object_id h"
      using 1(2) by (auto simp: object_id_def hex_chars)
    with 1(1) [OF True refl refl] show ?thesis
      by (subst scan_index.simps) (simp add: True Let_def)
  next
    case False
    with 1(2) show ?thesis
      by (subst scan_index.simps) simp
  qed
qed

lemma parse_index_file_object_ids:
  assumes "parse_index_file e st = Inr hs"
  shows "\<forall>h\<in>set hs. object_id h"
proof -
  have "\<forall>h\<in>set (scan_index content 0 []). object_id h" for content
    by (rule scan_index_object_ids) simp
  with assms show ?thesis
    by (auto simp: parse_index_file_def Let_def set_iter_set split: if_splits sum.splits)
qed


lemma fixed_paths_plain:
  "\<forall>p\<in>set (lit ''HEAD'' # basic_files @ ref_paths @ log_paths). plain_path p"
  by (simp add: basic_files_def ref_paths_def log_paths_def plain_path_def split_def lit_def)

lemma requests_plain:
  assumes "dump e d st = (Inr True, st')"
    and "trace st' = trace st @ evs"
    and "ref_hashes e (files (before_objects e d st)) = Inr hs"
    and "\<forall>h\<in>set hs. object_id h"
  shows "\<forall>p\<in>set (fetched_paths evs). plain_path p"
proof -
  from dump_run [OF assms(1)] obtain hs1 hs2 evs0 evs1 evs2 where *:
    "ref_hashes e (files (before_objects e d st)) = Inr hs1"
    "parse_index_file e (after_refs e d st) = Inr hs2"
    "trace st' = trace st @ evs0 @ evs1 @ evs2"
    "fetched_paths evs0 = lit ''HEAD'' # basic_files @ ref_paths @ log_paths"
    "object_events (set_iter e hs1) evs1"
    "object_events (filter (\<lambda>h. length h = 40) hs2) evs2"
    by blast
  from *(1) assms(3) have hs1: "hs1 = hs" by simp
  from *(3) assms(2) have evs: "evs = evs0 @ evs1 @ evs2" by simp
  have "\<forall>h\<in>set hs2. object_id h"
    using *(2) by (rule parse_index_file_object_ids)
  then have "\<forall>p\<in>set (map obj_path (set_iter e hs1) @ map obj_path (filter (\<lambda>h. length h = 40) hs2)).
      plain_path p"
    using assms(4) by (auto simp: hs1 set_iter_set object_id_plain)
  moreover have "\<forall>p\<in>set (fetched_paths evs0). plain_path p"
    unfolding *(4) by (rule fixed_paths_plain)
  ultimately show ?thesis
    unfolding evs by (auto simp: fetched_paths_append object_events_paths [OF *(5)]
        object_events_paths [OF *(6)])
qed

section \<open>What the seeds depend on\<close>

lemma head_ref_update:
  assumes "k \<noteq> path_join (lit ''.git'') (lit ''HEAD'')"
    and "\<not> prefix (path_join (lit ''.git'') (lit ''HEAD'') @ lit ''/'') k"
  shows "head_ref e (AList.update k v fs) = head_ref e fs"
  using assms
  by (simp add: head_ref_def read_str_def path_exists_update read_bytes_update Let_def
      cong: if_cong)

lemma head_hashes_update:
  assumes "k \<noteq> path_join (lit ''.git'') (lit ''HEAD'')"
    and "\<not> prefix (path_join (lit ''.git'') (lit ''HEAD'') @ lit ''/'') k"
    and "\<And>rp. head_ref e fs = Inr (Some rp) \<Longrightarrow>
           k \<noteq> path_join (lit ''.git'') rp \<and> \<not> prefix (path_join (lit ''.git'') rp @ lit ''/'') k"
  shows "head_hashes e (AList.update k v fs) = head_hashes e fs"
proof (cases "head_ref e fs")
  case (Inl x)
  then show ?thesis
    by (simp add: head_hashes_def head_ref_update [OF assms(1,2)])
next
  case (Inr r)
  show ?thesis
  proof (cases r)
    case None
    with Inr show ?thesis
      by (simp add: head_hashes_def head_ref_update [OF assms(1,2)])
  next
    case (Some rp)
    with Inr assms(3) [of rp] show ?thesis
      by (simp add: head_hashes_def head_ref_update [OF assms(1,2)] read_str_def
          path_exists_update read_bytes_update Let_def cong: if_cong)
  qed
qed

lemma refs_hashes_update:
  assumes "\<forall>f \<in> set fl. k \<noteq> f \<and> \<not> prefix (f @ lit ''/'') k"
  shows "refs_hashes e (AList.update k v fs) fl hs = refs_hashes e fs fl hs"
  using assms
  by (induction fl arbitrary: hs)
     (simp_all add: read_str_def read_bytes_update Let_def split: sum.splits)

lemma below_not_above:
  assumes "prefix (dir @ lit ''/'') f" and "\<not> prefix (dir @ lit ''/'') k"
  shows "k \<noteq> f \<and> \<not> prefix (f @ lit ''/'') k"
proof -
  have "prefix f (f @ lit ''/'')" by simp
  with assms show ?thesis
    by (meson prefix_order.trans)
qed

lemma ref_hashes_update:
  assumes "k \<noteq> path_join (lit ''.git'') (lit ''HEAD'')"
    and "\<not> prefix (path_join (lit ''.git'') (lit ''HEAD'') @ lit ''/'') k"
    and "\<And>rp. head_ref e fs = Inr (Some rp) \<Longrightarrow>
           k \<noteq> path_join (lit ''.git'') rp \<and> \<not> prefix (path_join (lit ''.git'') rp @ lit ''/'') k"
    and "k \<noteq> path_join (lit ''.git'') (lit ''refs'')"
    and "\<not> prefix (path_join (lit ''.git'') (lit ''refs'') @ lit ''/'') k"
  shows "ref_hashes e (AList.update k v fs) = ref_hashes e fs"
proof -
  let ?refs = "path_join (lit ''.git'') (lit ''refs'')"
  have "\<forall>f \<in> set (rglob_files fs ?refs). k \<noteq> f \<and> \<not> prefix (f @ lit ''/'') k"
    using below_not_above [OF _ assms(5)] by (simp add: rglob_files_def)
  then have "refs_hashes e (AList.update k v fs) (rglob_files fs ?refs) hs =
      refs_hashes e fs (rglob_files fs ?refs) hs" for hs
    by (rule refs_hashes_update)
  then show ?thesis
    by (simp add: ref_hashes_def head_hashes_update [OF assms(1,2,3)]
        path_exists_update [OF assms(4,5)] rglob_files_update [OF assms(5)] Let_def
        cong: if_cong split: sum.splits)
qed

lemma prefix_snoc_mem: "prefix (a @ [c]) s \<Longrightarrow> c \<in> set s"
  by (auto simp: prefix_def)

lemma object_key_facts:
  "lit ''.git/'' @ obj_path h \<noteq> path_join (lit ''.git'') (lit ''HEAD'')"
  "\<not> prefix (path_join (lit ''.git'') (lit ''HEAD'') @ lit ''/'') (lit ''.git/'' @ obj_path h)"
  "lit ''.git/'' @ obj_path h \<noteq> path_join (lit ''.git'') (lit ''refs'')"
  "\<not> prefix (path_join (lit ''.git'') (lit ''refs'') @ lit ''/'') (lit ''.git/'' @ obj_path h)"
  by (simp_all add: obj_path_def path_join_def lit_def)

lemma object_key_not_ref:
  assumes "prefix (lit ''refs/'') rp"
  shows "lit ''.git/'' @ obj_path h \<noteq> path_join (lit ''.git'') rp \<and>
     \<not> prefix (path_join (lit ''.git'') rp @ lit ''/'') (lit ''.git/'' @ obj_path h)"
proof -
  from assms obtain r where "rp = lit ''refs/'' @ r"
    by (auto simp: prefix_def)
  then show ?thesis
    by (simp add: obj_path_def path_join_def lit_def)
qed

lemma head_ref_replay:
  assumes "\<forall>q c. Saved q c \<in> set evs \<longrightarrow> (\<exists>h. q = lit ''.git/'' @ obj_path h)"
  shows "head_ref e (replay evs fs) = head_ref e fs"
  using assms
proof (induction evs arbitrary: fs)
  case Nil
  show ?case by simp
next
  case (Cons ev evs)
  show ?case
  proof (cases ev)
    case (Fetched p r)
    with Cons show ?thesis by simp
  next
    case (Saved q c)
    with Cons.prems obtain h where q: "q = lit ''.git/'' @ obj_path h"
      by auto
    have "head_ref e (replay evs (AList.update q c fs)) = head_ref e (AList.update q c fs)"
      using Cons.prems by (intro Cons.IH) simp
    also have "\<dots> = head_ref e fs"
      unfolding q by (simp add: head_ref_update object_key_facts)
    finally show ?thesis using Saved by simp
  qed
qed

lemma ref_hashes_replay:
  assumes "\<forall>q c. Saved q c \<in> set evs \<longrightarrow> (\<exists>h. q = lit ''.git/'' @ obj_path h)"
    and "\<And>rp. head_ref e fs = Inr (Some rp) \<Longrightarrow> prefix (lit ''refs/'') rp"
  shows "ref_hashes e (replay evs fs) = ref_hashes e fs"
  using assms
proof (induction evs arbitrary: fs)
  case Nil
  show ?case by simp
next
  case (Cons ev evs)
  show ?case
  proof (cases ev)
    case (Fetched p r)
    with Cons show ?thesis by simp
  next
    case (Saved q c)
    with Cons.prems(1) obtain h where q: "q = lit ''.git/'' @ obj_path h"
      by auto
    have hr: "head_ref e (AList.update q c fs) = head_ref e fs"
      unfolding q by (simp add: head_ref_update object_key_facts)
    have "ref_hashes e (replay evs (AList.update q c fs)) = ref_hashes e (AList.update q c fs)"
      using Cons.prems by (intro Cons.IH) (simp_all add: hr)
    also have "\<dots> = ref_hashes e fs"
      unfolding q
      by (rule ref_hashes_update)
         (use Cons.prems(2) in \<open>simp_all add: object_key_facts object_key_not_ref\<close>)
    finally show ?thesis using Saved by simp
  qed
qed

section \<open>A source that does not change\<close>

lemma download_file_unchanging:
  "unchanging e \<Longrightarrow>
   download_file e d p st =
     (response_of e d p, st\<lparr>trace := trace st @ [Fetched p (response_of e d p)]\<rparr>)"
proof -
  assume "unchanging e"
  then have "http_get e (trace st) url = http_get e [] url" for url
    unfolding unchanging_def by blast
  then show ?thesis
    by (simp add: download_file_def response_of_def Let_def)
qed

lemma download_each_append:
  "download_each e d (ps @ qs) st = download_each e d qs (download_each e d ps st)"
  by (induction ps arbitrary: st) (auto split: prod.splits)

lemma dump_each_download_each:
  "dump_each e d hs st = download_each e d (map obj_path hs) st"
  by (induction hs arbitrary: st) (auto simp: dump_object_def split: prod.splits)

lemma download_each_unchanging:
  assumes "unchanging e"
  shows "trace (download_each e d ps st) = trace st @ events_of e d ps"
  by (induction ps arbitrary: st)
     (simp_all add: download_file_unchanging [OF assms] save_file_def)

lemma set_events_of:
  "set (events_of e d ps) =
     (\<Union>p \<in> set ps. {Fetched p (response_of e d p)} \<union>
        (if truthy (response_of e d p)
         then {Saved (lit ''.git/'' @ p) (the (response_of e d p))} else {}))"
  by (induction ps) auto

lemma mirrors_update:
  "mirrors e d fs q \<Longrightarrow>
   mirrors e d (AList.update (lit ''.git/'' @ p) (the (response_of e d p)) fs) q"
  by (auto simp: mirrors_def update_conv')

lemma download_each_mirrors_kept:
  assumes "unchanging e"
  shows "mirrors e d (files st) q \<Longrightarrow> mirrors e d (files (download_each e d ps st)) q"
  by (induction ps arbitrary: st)
     (simp_all add: download_file_unchanging [OF assms] save_file_def mirrors_update)

lemma download_each_mirrors:
  assumes "unchanging e"
  shows "p \<in> set ps \<Longrightarrow> mirrors e d (files (download_each e d ps st)) p"
proof (induction ps arbitrary: st)
  case Nil
  then show ?case by simp
next
  case (Cons a ps)
  show ?case
  proof (cases "p = a")
    case True
    define st1 where "st1 = st\<lparr>trace := trace st @ [Fetched a (response_of e d a)]\<rparr>"
    define st2 where "st2 = (if truthy (response_of e d a)
        then save_file (lit ''.git/'' @ a) (the (response_of e d a)) st1 else st1)"
    have eq: "download_each e d (a # ps) st = download_each e d ps st2"
      by (simp add: download_file_unchanging [OF assms] st1_def st2_def)
    have "mirrors e d (files st2) a"
      by (simp add: st2_def st1_def save_file_def mirrors_def update_conv')
    then have "mirrors e d (files (download_each e d ps st2)) a"
      by (rule download_each_mirrors_kept [OF assms])
    with eq True show ?thesis by simp
  next
    case False
    with Cons.prems have "p \<in> set ps" by simp
    then show ?thesis
      by (simp add: download_file_unchanging [OF assms] Cons.IH)
  qed
qed

lemma download_each_idle:
  assumes "unchanging e"
  shows "\<forall>p \<in> set ps. mirrors e d (files st) p \<Longrightarrow> files (download_each e d ps st) = files st"
  by (induction ps arbitrary: st)
     (simp_all add: download_file_unchanging [OF assms] save_file_def mirrors_def update_triv)

lemma download_file_set_order [simp]:
  "download_file (e\<lparr>set_order := ord\<rparr>) d p st = download_file e d p st"
  by (simp add: download_file_def)

lemma download_each_set_order [simp]:
  "download_each (e\<lparr>set_order := ord\<rparr>) d ps st = download_each e d ps st"
  by (induction ps arbitrary: st) simp_all

lemma check_git_exposed_set_order [simp]:
  "check_git_exposed (e\<lparr>set_order := ord\<rparr>) d st = check_git_exposed e d st"
  by (simp add: check_git_exposed_def)

lemma before_objects_set_order [simp]:
  "before_objects (e\<lparr>set_order := ord\<rparr>) d st = before_objects e d st"
  by (simp add: before_objects_def dump_basic_files_def dump_refs_def dump_logs_def)

lemma read_str_set_order [simp]:
  "read_str (e\<lparr>set_order := ord\<rparr>) fs p = read_str e fs p"
  by (simp add: read_str_def split: sum.splits)

lemma refs_hashes_set_order [simp]:
  "refs_hashes (e\<lparr>set_order := ord\<rparr>) fs fl hs = refs_hashes e fs fl hs"
  by (induction fl arbitrary: hs) (simp_all add: Let_def split: sum.splits)

lemma head_ref_set_order [simp]:
  "head_ref (e\<lparr>set_order := ord\<rparr>) fs = head_ref e fs"
  by (simp add: head_ref_def Let_def cong: if_cong)

lemma head_hashes_set_order [simp]:
  "head_hashes (e\<lparr>set_order := ord\<rparr>) fs = head_hashes e fs"
  by (simp add: head_hashes_def Let_def cong: if_cong split: sum.splits option.splits)

lemma ref_hashes_set_order [simp]:
  "ref_hashes (e\<lparr>set_order := ord\<rparr>) fs = ref_hashes e fs"
  by (simp add: ref_hashes_def Let_def cong: if_cong split: sum.splits)

lemma parse_index_file_set:
  assumes "parse_index_file e st = Inr hs" and "files st' = files st"
  shows "\<exists>hs'. parse_index_file e' st' = Inr hs' \<and> set hs' = set hs"
  using assms
  by (auto simp: parse_index_file_def Let_def set_iter_set split: if_splits sum.splits)

lemma check_git_exposed_unchanging:
  assumes "unchanging e"
  shows "check_git_exposed e d st =
     (truthy (response_of e d (lit ''HEAD'')) \<and>
        contains (blit ''ref:'') (the (response_of e d (lit ''HEAD''))),
      st\<lparr>trace := trace st @ [Fetched (lit ''HEAD'') (response_of e d (lit ''HEAD''))]\<rparr>)"
  by (simp add: check_git_exposed_def download_file_unchanging [OF assms])

lemma before_objects_download_each:
  "before_objects e d st =
     download_each e d (basic_files @ ref_paths @ log_paths) (snd (check_git_exposed e d st))"
  by (simp add: before_objects_def dump_basic_files_def dump_refs_def dump_logs_def
      download_each_append)

lemma dump_each_append:
  "dump_each e d (hs @ hs') st = dump_each e d hs' (dump_each e d hs st)"
  by (induction hs arbitrary: st) simp_all

lemma dump_exposed:
  assumes "fst (check_git_exposed e d st)"
    and "ref_hashes e (files (before_objects e d st)) = Inr hs1"
  shows "dump e d st =
     (case parse_index_file e (before_objects e d st) of
        Inl x \<Rightarrow> (Inl x, dump_each e d (set_iter e hs1) (before_objects e d st))
      | Inr hs2 \<Rightarrow>
          (Inr True, dump_each e d (set_iter e hs1 @ filter (\<lambda>h. length h = 40) hs2)
             (before_objects e d st)))"
proof -
  define st4 where "st4 = before_objects e d st"
  define st5 where "st5 = dump_each e d (set_iter e hs1) st4"
  obtain evs5 where evs5: "files st5 = replay evs5 (files st4)"
      "object_events (set_iter e hs1) evs5"
    using dump_each_events [of e d "set_iter e hs1" st4] by (auto simp: st5_def)
  have "parse_index_file e st5 = parse_index_file e st4"
    using evs5(2,1) by (rule parse_index_file_after_objects)
  with assms show ?thesis
    by (simp add: dump_cases dump_each_append Let_def flip: st4_def st5_def split: sum.splits)
qed

lemma dump_completed:
  assumes "dump e d st = (Inr True, st1)"
  shows "\<exists>hs1 hs2. fst (check_git_exposed e d st) \<and>
     ref_hashes e (files (before_objects e d st)) = Inr hs1 \<and>
     parse_index_file e (before_objects e d st) = Inr hs2 \<and>
     st1 = dump_each e d (set_iter e hs1 @ filter (\<lambda>h. length h = 40) hs2)
             (before_objects e d st)"
proof -
  from assms have exposed: "fst (check_git_exposed e d st)"
    by (auto simp: dump_cases split: if_splits)
  with assms obtain hs1 where hs1: "ref_hashes e (files (before_objects e d st)) = Inr hs1"
    by (cases "ref_hashes e (files (before_objects e d st))") (auto simp: dump_cases)
  from assms show ?thesis
    unfolding dump_exposed [OF exposed hs1] using exposed hs1
    by (auto split: sum.splits)
qed

lemma events_of_append: "events_of e d (ps @ qs) = events_of e d ps @ events_of e d qs"
  by (induction ps) simp_all

lemma set_events_of_cong: "set ps = set qs \<Longrightarrow> set (events_of e d ps) = set (events_of e d qs)"
  by (simp add: set_events_of)

lemma unchanging_set_order [simp]: "unchanging (e\<lparr>set_order := ord\<rparr>) = unchanging e"
  by (simp add: unchanging_def)

section \<open>The substitution in the URL\<close>

lemma remove_git_dot_git_slash: "remove_git (lit ''.git/'' @ r) = remove_git r"
  by (simp add: lit_def)

lemma remove_git_dot_git:
  "remove_git (lit ''.git'' @ b) = remove_git (if prefix (lit ''/'') b then tl b else b)"
  by (cases b) (auto simp: lit_def)

lemma dot_git_slash_prefix: "prefix (lit ''.git/'') s \<Longrightarrow> prefix (lit ''.git'') s"
proof -
  assume "prefix (lit ''.git/'') s"
  moreover have "prefix (lit ''.git'') (lit ''.git/'')"
    by (simp add: lit_def)
  ultimately show ?thesis
    by (meson prefix_order.trans)
qed

lemma no_match_across:
  assumes "a \<noteq> []" and "c = [] \<or> hd c = 46" and "\<not> prefix (lit ''.git'') a"
  shows "\<not> prefix (lit ''.git'') (a @ c)"
proof
  assume "prefix (lit ''.git'') (a @ c)"
  with assms(3) obtain us where us: "lit ''.git'' = a @ us" "prefix us c"
    by (auto simp: prefix_append)
  with assms(1,3) have "us \<noteq> []" "hd us \<noteq> 46"
    by (auto simp: lit_def Cons_eq_append_conv)
  with us(2) assms(2) show False
    by (cases us; cases c) auto
qed

lemma remove_git_append:
  "c = [] \<or> hd c = 46 \<Longrightarrow> remove_git (a @ c) = remove_git a @ remove_git c"
proof (induction a rule: remove_git.induct)
  case 1
  show ?case by simp
next
  case (2 x xs)
  consider (slash) "prefix (lit ''.git/'') (x # xs)"
    | (plain) "\<not> prefix (lit ''.git/'') (x # xs)" "prefix (lit ''.git'') (x # xs)"
    | (none) "\<not> prefix (lit ''.git'') (x # xs)"
    by (auto simp: lit_def)
  then show ?case
  proof cases
    case slash
    then obtain r where r: "x # xs = lit ''.git/'' @ r"
      by (auto simp: prefix_def)
    then have xs: "drop 4 xs = r" by (auto simp: lit_def)
    have "remove_git ((x # xs) @ c) = remove_git (r @ c)"
      unfolding r by (simp add: lit_def)
    also have "\<dots> = remove_git r @ remove_git c"
      using "2.IH"(1) [OF slash "2.prems"] xs by simp
    also have "remove_git r = remove_git (x # xs)"
      unfolding r by (simp add: lit_def)
    finally show ?thesis .
  next
    case plain
    then obtain r where r: "x # xs = lit ''.git'' @ r"
      by (auto simp: prefix_def)
    with plain(1) have nr: "\<not> prefix (lit ''/'') r"
      by (auto simp: lit_def)
    with "2.prems" have nrc: "\<not> prefix (lit ''/'') (r @ c)"
      by (cases r; cases c) (auto simp: lit_def)
    from r have xs: "drop 3 xs = r" by (auto simp: lit_def)
    have "remove_git ((x # xs) @ c) = remove_git (r @ c)"
      unfolding r using nrc by (simp add: remove_git_dot_git)
    also have "\<dots> = remove_git r @ remove_git c"
      using "2.IH"(2) [OF plain "2.prems"] xs by simp
    also have "remove_git r = remove_git (x # xs)"
      unfolding r using nr by (simp add: remove_git_dot_git)
    finally show ?thesis .
  next
    case none
    then have n1: "\<not> prefix (lit ''.git/'') (x # xs)"
      by (blast dest: dot_git_slash_prefix)
    have n2: "\<not> prefix (lit ''.git'') ((x # xs) @ c)"
      using no_match_across [OF _ "2.prems" none] by simp
    then have n3: "\<not> prefix (lit ''.git/'') ((x # xs) @ c)"
      by (blast dest: dot_git_slash_prefix)
    have "remove_git ((x # xs) @ c) = x # remove_git (xs @ c)"
      using n2 n3 by simp
    also have "remove_git (xs @ c) = remove_git xs @ remove_git c"
      using "2.IH"(3) [OF n1 none "2.prems"] .
    finally show ?thesis using none n1 by simp
  qed
qed

lemma remove_git_occurrence:
  "remove_git (a @ lit ''.git'' @ b) =
     remove_git a @ remove_git (if prefix (lit ''/'') b then tl b else b)"
proof -
  have "remove_git (a @ (lit ''.git'' @ b)) = remove_git a @ remove_git (lit ''.git'' @ b)"
    by (rule remove_git_append) (simp add: lit_def)
  then show ?thesis by (simp only: remove_git_dot_git)
qed

lemma rstrip_slash_Nil_iff: "rstrip_slash s = [] \<longleftrightarrow> (\<forall>c \<in> set s. c = 47)"
  by (simp add: rstrip_slash_def dropWhile_eq_Nil_conv)

lemma rstrip_slash_append:
  "rstrip_slash (p @ r) = (if rstrip_slash r = [] then rstrip_slash p else p @ rstrip_slash r)"
  by (auto simp: rstrip_slash_def dropWhile_append dropWhile_eq_Nil_conv)

lemma rstrip_slash_Cons:
  "rstrip_slash (c # r) = (if rstrip_slash r = [] \<and> c = 47 then [] else c # rstrip_slash r)"
  using rstrip_slash_append [of "[c]" r] by (auto simp: rstrip_slash_def)

lemma remove_git_shortens:
  "length (rstrip_slash (remove_git u)) \<le> length (rstrip_slash u) \<and>
   (sublist (lit ''.git'') u \<longrightarrow>
      length (rstrip_slash (remove_git u)) + 4 \<le> length (rstrip_slash u))"
proof (induction u rule: remove_git.induct)
  case 1
  show ?case by (simp add: lit_def)
next
  case (2 x xs)
  consider (slash) "prefix (lit ''.git/'') (x # xs)"
    | (plain) "\<not> prefix (lit ''.git/'') (x # xs)" "prefix (lit ''.git'') (x # xs)"
    | (none) "\<not> prefix (lit ''.git'') (x # xs)"
    by (auto simp: lit_def)
  then show ?case
  proof cases
    case slash
    then obtain r where r: "x # xs = lit ''.git/'' @ r"
      by (auto simp: prefix_def)
    then have xs: "drop 4 xs = r" by (auto simp: lit_def)
    have "remove_git (x # xs) = remove_git r"
      unfolding r by (simp add: lit_def)
    moreover have "length (rstrip_slash (remove_git r)) \<le> length (rstrip_slash r)"
      using "2.IH"(1) [OF slash] xs by simp
    moreover have "length (rstrip_slash r) + 4 \<le> length (rstrip_slash (x # xs))"
      unfolding r by (simp add: rstrip_slash_append) (simp add: rstrip_slash_def lit_def)
    ultimately show ?thesis by simp
  next
    case plain
    then obtain r where r: "x # xs = lit ''.git'' @ r"
      by (auto simp: prefix_def)
    with plain(1) have nr: "\<not> prefix (lit ''/'') r"
      by (auto simp: lit_def)
    from r have xs: "drop 3 xs = r" by (auto simp: lit_def)
    have "remove_git (x # xs) = remove_git r"
      unfolding r using nr by (simp add: remove_git_dot_git)
    moreover have "length (rstrip_slash (remove_git r)) \<le> length (rstrip_slash r)"
      using "2.IH"(2) [OF plain] xs by simp
    moreover have "length (rstrip_slash r) + 4 \<le> length (rstrip_slash (x # xs))"
      unfolding r by (simp add: rstrip_slash_append) (simp add: rstrip_slash_def lit_def)
    ultimately show ?thesis by simp
  next
    case none
    then have n1: "\<not> prefix (lit ''.git/'') (x # xs)"
      by (blast dest: dot_git_slash_prefix)
    from "2.IH"(3) [OF n1 none] have IH:
      "length (rstrip_slash (remove_git xs)) \<le> length (rstrip_slash xs)"
      "sublist (lit ''.git'') xs \<Longrightarrow>
         length (rstrip_slash (remove_git xs)) + 4 \<le> length (rstrip_slash xs)"
      by simp_all
    have rg: "remove_git (x # xs) = x # remove_git xs"
      using none n1 by simp
    have le: "length (rstrip_slash (remove_git (x # xs))) \<le> length (rstrip_slash (x # xs))"
      unfolding rg using IH(1) by (auto simp: rstrip_slash_Cons)
    have "length (rstrip_slash (remove_git (x # xs))) + 4 \<le> length (rstrip_slash (x # xs))"
      if "sublist (lit ''.git'') (x # xs)"
    proof -
      from that none have "sublist (lit ''.git'') xs"
        by (simp add: sublist_Cons_right)
      from IH(2) [OF this] show ?thesis
        unfolding rg by (auto simp: rstrip_slash_Cons)
    qed
    with le show ?thesis by simp
  qed
qed

lemma sublist_with_scheme: "sublist (lit ''.git'') arg \<Longrightarrow> sublist (lit ''.git'') (with_scheme arg)"
proof -
  assume "sublist (lit ''.git'') arg"
  then obtain ps ss where "arg = ps @ lit ''.git'' @ ss"
    by (auto simp: sublist_def)
  then have "lit ''http://'' @ arg = (lit ''http://'' @ ps) @ lit ''.git'' @ ss"
    by simp
  then have "sublist (lit ''.git'') (lit ''http://'' @ arg)"
    by (metis sublist_appendI)
  with \<open>sublist (lit ''.git'') arg\<close> show ?thesis
    by (simp add: with_scheme_def)
qed

section \<open>Evaluating the test server\<close>

lemma test_env_simps:
  "http_get (test_env t) = static_server t"
  "urljoin (test_env t) = (\<lambda>base path. base @ path)"
  "read_text (test_env t) = ascii_text"
  "set_order (test_env t) = (\<lambda>xs. xs)"
  by (simp_all add: test_env_def)

lemma test_dumper_simps: "base_url test_dumper = lit ''http://target/.git/''"
  by (simp add: test_dumper_def init_def rstrip_slash_def lit_def)

lemmas run_defs = dump_def check_git_exposed_def dump_basic_files_def dump_refs_def dump_logs_def
  basic_files_def ref_paths_def log_paths_def save_file_def dump_objects_from_refs_def
  dump_objects_from_index_def parse_index_file_def ref_hashes_def head_hashes_def head_ref_def
  path_exists_def is_file_def is_dir_def read_str_def read_bytes_def path_join_def
  rglob_files_def strip_def isspace_def split_def index_def ascii_text_def
  set_iter_def dump_object_def obj_path_def download_file_def static_server_def
  lit_def blit_def Let_def empty_state_def

lemma nonempty_bodies [simp]:
  "commit_object \<noteq> []" "tree_object \<noteq> []" "dev_object \<noteq> []" "packed_refs_dev \<noteq> []"
  by (simp_all add: commit_object_def tree_object_def dev_object_def packed_refs_dev_def blit_def)

lemmas master_defs = server_master_def head_master_def ref_master_def index_master_def
  master_events_def master_files_def

lemma run_master:
  "dump (test_env server_master) test_dumper empty_state =
     (Inr True, \<lparr>files = master_files, trace = master_events\<rparr>)"
  by (simp add: run_defs test_env_simps test_dumper_simps master_defs scan_index.simps
      hex_def hexdigit_def)

lemma unchanging_test_env: "unchanging (test_env t)"
  by (simp add: unchanging_def test_env_simps static_server_def)

lemma run_rerun_1:
  "dump (test_env server_rerun) test_dumper empty_state =
     (Inr True,
      \<lparr>files = [(lit ''.git/HEAD'', head_object),
                (lit ''.git/refs/heads/master'', ref_master),
                (lit ''.git/objects/ce/3754e585a916e42eb5c3e0a89902f1f622c774'', text_object)],
       trace = [Fetched (lit ''HEAD'') (Some head_object),
          Fetched (lit ''HEAD'') (Some head_object),
          Saved (lit ''.git/HEAD'') head_object,
          Fetched (lit ''config'') None,
          Fetched (lit ''description'') None,
          Fetched (lit ''index'') None,
          Fetched (lit ''packed-refs'') None,
          Fetched (lit ''FETCH_HEAD'') None,
          Fetched (lit ''ORIG_HEAD'') None,
          Fetched (lit ''refs/heads/master'') (Some ref_master),
          Saved (lit ''.git/refs/heads/master'') ref_master,
          Fetched (lit ''refs/heads/main'') None,
          Fetched (lit ''refs/remotes/origin/master'') None,
          Fetched (lit ''refs/remotes/origin/main'') None,
          Fetched (lit ''refs/remotes/origin/HEAD'') None,
          Fetched (lit ''refs/stash'') None,
          Fetched (lit ''logs/HEAD'') None,
          Fetched (lit ''logs/refs/heads/master'') None,
          Fetched (lit ''logs/refs/heads/main'') None,
          Fetched (lit ''logs/refs/remotes/origin/master'') None,
          Fetched (lit ''logs/refs/remotes/origin/main'') None,
          Fetched (lit ''objects/ce/3754e585a916e42eb5c3e0a89902f1f622c774'') (Some text_object),
          Saved (lit ''.git/objects/ce/3754e585a916e42eb5c3e0a89902f1f622c774'') text_object]\<rparr>)"
  by (simp add: run_defs test_env_simps test_dumper_simps server_rerun_def head_object_def
      ref_master_def text_object_def)

lemma run_rerun_2_paths:
  "lit ''objects/bb/76d2051c310e6121452e6c65aec9d34617b260'' \<in> set (fetched_paths (trace (snd
     (dump (test_env server_rerun) test_dumper
      \<lparr>files = [(lit ''.git/HEAD'', head_object),
                (lit ''.git/refs/heads/master'', ref_master),
                (lit ''.git/objects/ce/3754e585a916e42eb5c3e0a89902f1f622c774'', text_object)],
       trace = []\<rparr>))))"
  by (simp add: run_defs test_env_simps test_dumper_simps server_rerun_def head_object_def
      ref_master_def text_object_def)

lemma plain_refs_heads_master: "plain_path (lit ''refs/heads/master'')"
  by (simp add: plain_path_def split_def lit_def)

lemma plain_master_paths: "\<forall>p\<in>set (fetched_paths master_events). plain_path p"
  by (simp add: master_events_def plain_path_def split_def lit_def)

section \<open>Failure handling\<close>

text \<open>
  The block that reads HEAD: a saved HEAD whose text, stripped, starts with \<open>ref:\<close> and
  does not contain \<open>ref: \<close> ends \<open>dump_objects_from_refs\<close> in an IndexError.
\<close>

lemma head_without_separator_raises:
  assumes "map_of fs (lit ''.git/HEAD'') = Some c"
    and "read_text e c = Inr t"
    and "prefix (lit ''ref:'') (strip t)"
    and "length (split (strip t) (lit ''ref: '')) < 2"
  shows "ref_hashes e fs = Inl IndexError"
proof -
  have p: "path_join (lit ''.git'') (lit ''HEAD'') = lit ''.git/HEAD''"
    by (simp add: path_join_def lit_def)
  from assms(1) have "path_exists fs (lit ''.git/HEAD'')" "read_str e fs (lit ''.git/HEAD'') = Inr t"
    using assms(2) by (simp_all add: path_exists_def is_file_def read_str_def read_bytes_def)
  with assms(3,4) have "head_ref e fs = Inl IndexError"
    by (simp add: head_ref_def p index_def Let_def)
  then show ?thesis
    by (simp add: ref_hashes_def head_hashes_def)
qed

text \<open>
  Claim C2 (the run is never aborted after the probe; reading HEAD and the ref files
  never raises). The source tests \<open>startswith('ref:')\<close> and then takes
  \<open>split('ref: ')[1]\<close>: a HEAD that reads \<open>ref:refs/heads/master\<close>, without the space,
  passes the probe and the test, the split has one piece, and the run ends in an
  IndexError that nothing catches.
\<close>

theorem dump_raises_on_head_without_space:
  "fst (dump (test_env server_nospace) test_dumper empty_state) = Inl IndexError"
  by (simp add: run_defs test_env_simps test_dumper_simps server_nospace_def)

text \<open>
  What does hold of the exit status: it is 0 exactly when \<open>dump\<close> returns True, and a
  failed probe ends the run with status 1 after the one request of HEAD.
\<close>

lemma probe_failure_ends_run:
  assumes "\<not> fst (check_git_exposed e (init (target_url arg) out) st)"
  shows "fst (main e arg out st) = 1 \<and>
     (\<exists>r. trace (snd (main e arg out st)) = trace st @ [Fetched (lit ''HEAD'') r])"
proof -
  let ?d = "init (target_url arg) out"
  obtain r where "snd (check_git_exposed e ?d st) = st\<lparr>trace := trace st @ [Fetched (lit ''HEAD'') r]\<rparr>"
    using check_git_exposed_state [of e ?d st] by blast
  with assms show ?thesis
    by (simp add: main_def dump_cases)
qed

lemma exit_status_zero:
  "fst (main e arg out st) = 0 \<longleftrightarrow> fst (dump e (init (target_url arg) out) st) = Inr True"
  by (auto simp: main_def Let_def split: prod.splits sum.splits)

text \<open>
  Claim C4 (exit status 0 exactly when the probe succeeded). On the same server the probe
  succeeds, and the process ends with status 1, by the IndexError above.
\<close>

theorem exit_status_after_successful_probe:
  "fst (check_git_exposed (test_env server_nospace) test_dumper empty_state) \<and>
   fst (main (test_env server_nospace) (lit ''http://target'') (lit ''./output'') empty_state) = 1"
  by (simp add: main_def target_url_def with_scheme_def init_def rstrip_slash_def run_defs
      test_env_simps test_dumper_simps server_nospace_def)

section \<open>The index scan\<close>

text \<open>The candidates are the windows at the offsets below \<open>len(content) - 20\<close>.\<close>

lemma length_hex: "length (hex bs) = 2 * length bs"
  by (induction bs) (simp_all add: hex_def)

lemma scan_index_windows:
  "scan_index content i hashes =
     hashes @ map (\<lambda>j. hex (take 20 (drop j content))) [i..<length content - 20]"
proof (induction content i hashes rule: scan_index.induct)
  case (1 content i hashes)
  show ?case
  proof (cases "int i < int (length content) - 20")
    case True
    then have lt: "i < length content - 20" by simp
    then have len: "length (hex (take 20 (drop i content))) = 40"
      by (simp add: length_hex)
    have "scan_index content i hashes =
        scan_index content (i + 1) (hashes @ [hex (take 20 (drop i content))])"
      using True len by (subst scan_index.simps) (simp add: Let_def)
    also have "\<dots> = (hashes @ [hex (take 20 (drop i content))]) @
        map (\<lambda>j. hex (take 20 (drop j content))) [i + 1..<length content - 20]"
      using "1.IH" [OF True refl refl] len by simp
    also have "\<dots> = hashes @ map (\<lambda>j. hex (take 20 (drop j content))) [i..<length content - 20]"
      using lt by (simp add: upt_conv_Cons)
    finally show ?thesis .
  next
    case False
    then have "\<not> i < length content - 20" by simp
    with False show ?thesis
      by (subst scan_index.simps) simp
  qed
qed

lemma scan_index21:
  "scan_index index21 0 [] = [lit ''000102030405060708090a0b0c0d0e0f10111213'']"
  by (simp add: scan_index.simps index21_def hex_def hexdigit_def lit_def)

text \<open>
  Claim C6 (every window of 20 bytes that fits in the index file is a candidate). The
  loop runs while \<open>i < len(content) - 20\<close>, so the window at the last offset,
  \<open>len(content) - 20\<close>, is never read: of the two windows of a file of 21 bytes only the
  first is returned.
\<close>

theorem parse_index_file_misses_last_window:
  "parse_index_file e \<lparr>files = [(lit ''.git/index'', index21)], trace = []\<rparr> =
     Inr [lit ''000102030405060708090a0b0c0d0e0f10111213''] \<and>
   hex (take 20 (drop 1 index21)) = lit ''0102030405060708090a0b0c0d0e0f1011121314''"
proof -
  have "path_exists [(lit ''.git/index'', index21)] (path_join (lit ''.git'') (lit ''index''))"
    by (simp add: path_exists_def is_file_def path_join_def lit_def)
  moreover have "read_bytes [(lit ''.git/index'', index21)]
      (path_join (lit ''.git'') (lit ''index'')) = Inr index21"
    by (simp add: read_bytes_def path_join_def lit_def)
  ultimately have "parse_index_file e \<lparr>files = [(lit ''.git/index'', index21)], trace = []\<rparr> =
      Inr [lit ''000102030405060708090a0b0c0d0e0f10111213'']"
    by (simp add: parse_index_file_def scan_index21 set_iter_single)
  moreover have "hex (take 20 (drop 1 index21)) = lit ''0102030405060708090a0b0c0d0e0f1011121314''"
    by (simp add: index21_def hex_def hexdigit_def lit_def)
  ultimately show ?thesis by simp
qed

section \<open>What is written\<close>



text \<open>
  Claim C8: an object with a 40-character id is requested at, and saved under,
  \<open>objects/\<close>, the first two characters, a slash, the other 38. \<open>r\<close> is what the download
  of that path returned.
\<close>

theorem dump_object_paths:
  assumes "length h = 40"
  shows "\<exists>r. r = fst (download_file e d (lit ''objects/'' @ take 2 h @ lit ''/'' @ drop 2 h) st) \<and>
     trace (snd (dump_object e d h st)) =
       trace st @ Fetched (lit ''objects/'' @ take 2 h @ lit ''/'' @ drop 2 h) r #
         (if truthy r
          then [Saved (lit ''.git/objects/'' @ take 2 h @ lit ''/'' @ drop 2 h) (the r)]
          else []) \<and>
     length (take 2 h) = 2 \<and> length (drop 2 h) = 38"
proof -
  let ?p = "lit ''objects/'' @ take 2 h @ lit ''/'' @ drop 2 h"
  obtain r st1 where dl: "download_file e d ?p st = (r, st1)"
    by (cases "download_file e d ?p st")
  then have st1: "st1 = st\<lparr>trace := trace st @ [Fetched ?p r]\<rparr>"
    by (rule download_file_state)
  have "lit ''.git/'' @ ?p = lit ''.git/objects/'' @ take 2 h @ lit ''/'' @ drop 2 h"
    by (simp add: lit_def)
  with dl st1 assms show ?thesis
    by (simp add: dump_object_def obj_path_def save_file_def)
qed

theorem dump_object_paths_witness:
  "length commit_id = 40 \<and>
   trace (snd (dump_object (test_env server_master) test_dumper commit_id empty_state)) =
     [Fetched (lit ''objects/ce/3754e585a916e42eb5c3e0a89902f1f622c774'') (Some commit_object),
      Saved (lit ''.git/objects/ce/3754e585a916e42eb5c3e0a89902f1f622c774'') commit_object]"
proof -
  have len: "length commit_id = 40"
    by (simp add: commit_id_def lit_def)
  have dl: "fst (download_file (test_env server_master) test_dumper
      (lit ''objects/'' @ take 2 commit_id @ lit ''/'' @ drop 2 commit_id) empty_state) =
      Some commit_object"
    by (simp add: download_file_def test_env_simps test_dumper_simps static_server_def
        server_master_def commit_id_def lit_def Let_def)
  from dump_object_paths [OF len, of "test_env server_master" test_dumper empty_state] dl len
  show ?thesis
    by (simp add: empty_state_def commit_id_def lit_def)
qed

section \<open>What is requested\<close>

text \<open>
  On the test repository the first commit is saved and the tree it names, which the server
  has, is never requested: the run does not expand the graph (against claim C1).
\<close>

theorem no_reference_is_followed:
  "\<not> expands_references repository_references
       (trace (snd (dump (test_env server_master) test_dumper empty_state)))"
  by (simp add: run_master expands_references_def master_events_def repository_references_def
      tree_id_def obj_path_def lit_def)

text \<open>
  Claim C1, amended: no fetched object is decoded and no reference is followed. In a run
  that completes, the objects requested are, first, the ids read from HEAD's ref file and
  the files below \<open>refs\<close> before any object is requested, each once; then the 40-character
  candidates that \<open>parse_index_file\<close> returns when that first pass is over, each once.
  Each request is followed by the write of its body under \<open>.git/\<close> and the same path when
  the body is not empty, and nothing else is requested below \<open>objects/\<close>.
\<close>

theorem fetched_objects_are_the_seeds:
  assumes "dump e d st = (Inr True, st')"
  shows "\<exists>hs1 hs2 evs0 evs1 evs2.
     ref_hashes e (files (before_objects e d st)) = Inr hs1 \<and>
     parse_index_file e (after_refs e d st) = Inr hs2 \<and>
     trace (before_objects e d st) = trace st @ evs0 \<and>
     trace (after_refs e d st) = trace st @ evs0 @ evs1 \<and>
     trace st' = trace st @ evs0 @ evs1 @ evs2 \<and>
     filter (prefix (lit ''objects/'')) (fetched_paths evs0) = [] \<and>
     object_events (set_iter e hs1) evs1 \<and>
     object_events (filter (\<lambda>h. length h = 40) hs2) evs2 \<and>
     filter (prefix (lit ''objects/'')) (fetched_paths (evs0 @ evs1 @ evs2)) =
       map obj_path (set_iter e hs1 @ filter (\<lambda>h. length h = 40) hs2)"
proof -
  from dump_run [OF assms] obtain hs1 hs2 evs0 evs1 evs2 where *:
    "ref_hashes e (files (before_objects e d st)) = Inr hs1"
    "parse_index_file e (after_refs e d st) = Inr hs2"
    "trace (before_objects e d st) = trace st @ evs0"
    "trace (after_refs e d st) = trace st @ evs0 @ evs1"
    "trace st' = trace st @ evs0 @ evs1 @ evs2"
    "fetched_paths evs0 = lit ''HEAD'' # basic_files @ ref_paths @ log_paths"
    "object_events (set_iter e hs1) evs1"
    "object_events (filter (\<lambda>h. length h = 40) hs2) evs2"
    by blast
  have objs: "filter (prefix (lit ''objects/'')) (map obj_path hs) = map obj_path hs" for hs
    by (simp add: filter_map o_def obj_path_prefix)
  have fixed: "filter (prefix (lit ''objects/'')) (fetched_paths evs0) = []"
    using fixed_paths_not_objects unfolding *(6) by simp
  have "filter (prefix (lit ''objects/'')) (fetched_paths (evs0 @ evs1 @ evs2)) =
      map obj_path (set_iter e hs1 @ filter (\<lambda>h. length h = 40) hs2)"
    by (simp add: fetched_paths_append fixed object_events_paths [OF *(7)]
        object_events_paths [OF *(8)] objs)
  with * fixed show ?thesis by blast
qed

theorem fetched_objects_are_the_seeds_witness:
  "dump (test_env server_master) test_dumper empty_state =
     (Inr True, \<lparr>files = master_files, trace = master_events\<rparr>) \<and>
   (\<exists>hs1 hs2 evs0 evs1 evs2.
     ref_hashes (test_env server_master)
       (files (before_objects (test_env server_master) test_dumper empty_state)) = Inr hs1 \<and>
     parse_index_file (test_env server_master)
       (after_refs (test_env server_master) test_dumper empty_state) = Inr hs2 \<and>
     trace (before_objects (test_env server_master) test_dumper empty_state) = evs0 \<and>
     trace (after_refs (test_env server_master) test_dumper empty_state) = evs0 @ evs1 \<and>
     master_events = evs0 @ evs1 @ evs2 \<and>
     filter (prefix (lit ''objects/'')) (fetched_paths evs0) = [] \<and>
     object_events (set_iter (test_env server_master) hs1) evs1 \<and>
     object_events (filter (\<lambda>h. length h = 40) hs2) evs2 \<and>
     filter (prefix (lit ''objects/'')) (fetched_paths (evs0 @ evs1 @ evs2)) =
       map obj_path (set_iter (test_env server_master) hs1 @ filter (\<lambda>h. length h = 40) hs2))"
  using fetched_objects_are_the_seeds [OF run_master] run_master by (simp add: empty_state_def)

text \<open>
  On the test repository the first commit is a seed from the refs and a window of the
  index: its path is requested twice (against claim C3).
\<close>

theorem object_fetched_twice:
  "\<not> fetched_at_most_once (trace (snd (dump (test_env server_master) test_dumper empty_state)))"
  by (simp add: run_master fetched_at_most_once_def master_events_def lit_def)

text \<open>
  Claim C3, amended: in a run that completes an object is requested once in the pass over
  the ids read from the refs if its id is among them, and once more in the pass over the
  candidates that \<open>parse_index_file\<close> returns after that pass if its id is among those: at
  most once in each pass, so at most twice; nothing is remembered from the first pass to
  the second.
\<close>

theorem object_fetch_count:
  assumes "dump e d st = (Inr True, st')"
  shows "\<exists>hs1 hs2 evs.
     ref_hashes e (files (before_objects e d st)) = Inr hs1 \<and>
     parse_index_file e (after_refs e d st) = Inr hs2 \<and>
     trace st' = trace st @ evs \<and>
     (\<forall>h. count_list (fetched_paths evs) (obj_path h) =
        (if h \<in> set hs1 then 1 else 0) + (if h \<in> set hs2 \<and> length h = 40 then 1 else 0))"
proof -
  from dump_run [OF assms] obtain hs1 hs2 evs0 evs1 evs2 where *:
    "ref_hashes e (files (before_objects e d st)) = Inr hs1"
    "parse_index_file e (after_refs e d st) = Inr hs2"
    "trace st' = trace st @ evs0 @ evs1 @ evs2"
    "fetched_paths evs0 = lit ''HEAD'' # basic_files @ ref_paths @ log_paths"
    "object_events (set_iter e hs1) evs1"
    "object_events (filter (\<lambda>h. length h = 40) hs2) evs2"
    by blast
  have paths: "fetched_paths (evs0 @ evs1 @ evs2) =
      (lit ''HEAD'' # basic_files @ ref_paths @ log_paths) @
       map obj_path (set_iter e hs1) @ map obj_path (filter (\<lambda>h. length h = 40) hs2)"
    by (simp add: fetched_paths_append *(4) object_events_paths [OF *(5)]
        object_events_paths [OF *(6)])
  have d2: "distinct (filter (\<lambda>h. length h = 40) hs2)"
    using parse_index_file_distinct [OF *(2)] by simp
  have "count_list (fetched_paths (evs0 @ evs1 @ evs2)) (obj_path h) =
        (if h \<in> set hs1 then 1 else 0) + (if h \<in> set hs2 \<and> length h = 40 then 1 else 0)" for h
    unfolding paths count_list_append count_fixed_paths
      count_obj_paths [OF set_iter_distinct] count_obj_paths [OF d2]
    by (simp add: set_iter_set)
  with * show ?thesis by blast
qed

theorem object_fetch_count_witness:
  "dump (test_env server_master) test_dumper empty_state =
     (Inr True, \<lparr>files = master_files, trace = master_events\<rparr>) \<and>
   (\<exists>hs1 hs2 evs.
     ref_hashes (test_env server_master)
       (files (before_objects (test_env server_master) test_dumper empty_state)) = Inr hs1 \<and>
     parse_index_file (test_env server_master)
       (after_refs (test_env server_master) test_dumper empty_state) = Inr hs2 \<and>
     master_events = evs \<and>
     (\<forall>h. count_list (fetched_paths evs) (obj_path h) =
        (if h \<in> set hs1 then 1 else 0) + (if h \<in> set hs2 \<and> length h = 40 then 1 else 0)))"
  using object_fetch_count [OF run_master] run_master by (simp add: empty_state_def)


text \<open>
  On the test repository \<open>packed-refs\<close> is saved with its line for the branch dev, and the
  commit that line names is never requested (against claim C7).
\<close>

theorem packed_refs_id_not_requested:
  "\<not> seeds_packed_refs (snd (dump (test_env server_master) test_dumper empty_state))"
  by (simp add: run_master seeds_packed_refs_def master_files_def master_events_def
      packed_refs_ids_def packed_refs_dev_def is_hex_def obj_path_def lit_def blit_def)

text \<open>
  Claim C7, amended: \<open>packed-refs\<close> is one of the basic files; in a run that passes the
  probe each of them is requested, right after the probe, and saved as it is when its body
  is not empty. It is never parsed: the ids read from the refs and the candidates of the
  index are the same whatever the saved \<open>packed-refs\<close> holds, provided the ref that HEAD
  names, if any, is a plain path other than \<open>packed-refs\<close>. A ref written as
  \<open>./packed-refs\<close> is not plain: it names the same file, which is then read as HEAD's ref
  file.
\<close>

theorem packed_refs_never_read:
  assumes "\<forall>rp. head_ref e fs = Inr (Some rp) \<longrightarrow> plain_path rp \<and> rp \<noteq> lit ''packed-refs''"
    and "fst (check_git_exposed e d st)"
  shows "lit ''packed-refs'' \<in> set basic_files \<and>
     (\<exists>r evs rest. trace (snd (dump e d st)) = trace st @ Fetched (lit ''HEAD'') r # evs @ rest \<and>
            download_events basic_files evs) \<and>
     ref_hashes e (AList.update (lit ''.git/packed-refs'') c fs) = ref_hashes e fs \<and>
     parse_index_file e \<lparr>files = AList.update (lit ''.git/packed-refs'') c fs, trace = t\<rparr> =
       parse_index_file e \<lparr>files = fs, trace = t\<rparr>"
proof -
  let ?k = "lit ''.git/packed-refs''"
  have k: "?k = path_join (lit ''.git'') (lit ''packed-refs'')"
    by (simp add: path_join_def lit_def)
  have head: "?k \<noteq> path_join (lit ''.git'') rp \<and> \<not> prefix (path_join (lit ''.git'') rp @ lit ''/'') ?k"
    if "head_ref e fs = Inr (Some rp)" for rp
  proof -
    from that assms(1) have "rp \<noteq> lit ''packed-refs''" by auto
    moreover have "\<not> prefix (rp @ lit ''/'') (lit ''packed-refs'')"
    proof
      assume "prefix (rp @ lit ''/'') (lit ''packed-refs'')"
      then have "prefix (rp @ [47]) (lit ''packed-refs'')"
        by (simp add: lit_def)
      then have "47 \<in> set (lit ''packed-refs'')"
        by (rule prefix_snoc_mem)
      then show False by (simp add: lit_def)
    qed
    ultimately show ?thesis
      unfolding k by (simp add: path_join_def)
  qed
  have "ref_hashes e (AList.update ?k c fs) = ref_hashes e fs"
    by (rule ref_hashes_update) (use head in \<open>simp_all add: path_join_def lit_def\<close>)
  moreover have "parse_index_file e \<lparr>files = AList.update ?k c fs, trace = t\<rparr> =
       parse_index_file e \<lparr>files = fs, trace = t\<rparr>"
    by (simp add: parse_index_file_def path_exists_update read_bytes_update path_join_def lit_def
        Let_def cong: if_cong)
  moreover have "lit ''packed-refs'' \<in> set basic_files"
    by (simp add: basic_files_def)
  moreover note dump_basic_events [OF assms(2)]
  ultimately show ?thesis by simp
qed

theorem packed_refs_never_read_witness:
  "head_ref (test_env server_master)
     [(lit ''.git/HEAD'', head_master), (lit ''.git/refs/heads/master'', ref_master)] =
     Inr (Some (lit ''refs/heads/master'')) \<and>
   plain_path (lit ''refs/heads/master'') \<and>
   fst (check_git_exposed (test_env server_master) test_dumper empty_state) \<and>
   (\<exists>r evs rest. master_events = Fetched (lit ''HEAD'') r # evs @ rest \<and>
      download_events basic_files evs) \<and>
   ref_hashes (test_env server_master)
     [(lit ''.git/HEAD'', head_master), (lit ''.git/refs/heads/master'', ref_master),
      (lit ''.git/packed-refs'', packed_refs_dev)] = Inr [commit_id, commit_id]"
proof -
  let ?fs = "[(lit ''.git/HEAD'', head_master), (lit ''.git/refs/heads/master'', ref_master)]"
  have h: "head_ref (test_env server_master) ?fs = Inr (Some (lit ''refs/heads/master''))"
    by (simp add: run_defs test_env_simps head_master_def)
  have ne: "lit ''refs/heads/master'' \<noteq> lit ''packed-refs''"
    by (simp add: lit_def)
  have hyp: "\<forall>rp. head_ref (test_env server_master) ?fs = Inr (Some rp) \<longrightarrow>
      plain_path rp \<and> rp \<noteq> lit ''packed-refs''"
    using h ne plain_refs_heads_master by simp
  have probe: "fst (check_git_exposed (test_env server_master) test_dumper empty_state)"
    by (simp add: run_defs test_env_simps test_dumper_simps master_defs empty_state_def)
  have r: "ref_hashes (test_env server_master) ?fs = Inr [commit_id, commit_id]"
    by (simp add: run_defs test_env_simps head_master_def ref_master_def commit_id_def)
  have u: "AList.update (lit ''.git/packed-refs'') packed_refs_dev ?fs =
      [(lit ''.git/HEAD'', head_master), (lit ''.git/refs/heads/master'', ref_master),
       (lit ''.git/packed-refs'', packed_refs_dev)]"
    by (simp add: lit_def)
  from packed_refs_never_read [OF hyp probe, of packed_refs_dev "[]", unfolded run_master]
    h r u plain_refs_heads_master probe
  show ?thesis
    by (simp add: empty_state_def)
qed

section \<open>Running twice\<close>

text \<open>
  A HEAD that names an object file as its ref: the first run finds no such file and
  requests one object; the second run reads the file the first one saved, takes its text
  as an id and requests a second object (against claim C9).
\<close>

theorem second_run_differs: "\<not> rerun_same (test_env server_rerun) test_dumper empty_state"
proof -
  have "lit ''objects/bb/76d2051c310e6121452e6c65aec9d34617b260'' \<notin>
      set (fetched_paths (trace (snd (dump (test_env server_rerun) test_dumper empty_state))))"
    unfolding run_rerun_1 by (simp add: lit_def)
  moreover have "lit ''objects/bb/76d2051c310e6121452e6c65aec9d34617b260'' \<in>
      set (fetched_paths (trace (snd (dump (test_env server_rerun) test_dumper
        ((snd (dump (test_env server_rerun) test_dumper empty_state))\<lparr>trace := []\<rparr>)))))"
    unfolding run_rerun_1 using run_rerun_2_paths by simp
  ultimately show ?thesis
    unfolding rerun_same_def Let_def by metis
qed

text \<open>
  Claim C9, amended: against a source that does not change, after a run that completed,
  a second run into the same directory completes, leaves every file as it was and has the
  same events up to their order, provided every path the first run requested is plain and
  the ref that the saved HEAD names, if any, is a plain path below \<open>refs/\<close>. The second
  run may iterate its sets in another order. Paths that are not plain are left out because
  an id such as \<open>../refs/heads/x\<close>, or a ref such as \<open>refs/../objects/ce/37\<close>, makes the
  first run write an object where the second run reads a ref; the requests are plain
  whenever the ids read from the refs are ObjectIds (lemma \<open>requests_plain\<close>).
\<close>

theorem second_run_same:
  assumes "unchanging e"
    and "dump e d st = (Inr True, st1)"
    and "trace st1 = trace st @ evs1"
    and "\<forall>p\<in>set (fetched_paths evs1). plain_path p"
    and "\<forall>rp. head_ref e (files st1) = Inr (Some rp) \<longrightarrow> plain_path rp \<and> prefix (lit ''refs/'') rp"
  shows "\<exists>st2. dump (e\<lparr>set_order := ord\<rparr>) d (st1\<lparr>trace := []\<rparr>) = (Inr True, st2) \<and>
     files st2 = files st1 \<and> set (trace st2) = set evs1"
proof -
  let ?e' = "e\<lparr>set_order := ord\<rparr>"
  let ?F = "basic_files @ ref_paths @ log_paths"
  let ?R = "response_of e d (lit ''HEAD'')"
  define s where "s = st1\<lparr>trace := []\<rparr>"
  define st4 where "st4 = before_objects e d st"
  from dump_completed [OF assms(2)] obtain hs1 hs2 where run1:
    "fst (check_git_exposed e d st)"
    "ref_hashes e (files st4) = Inr hs1"
    "parse_index_file e st4 = Inr hs2"
    "st1 = dump_each e d (set_iter e hs1 @ filter (\<lambda>h. length h = 40) hs2) st4"
    unfolding st4_def by blast
  let ?O1 = "map obj_path (set_iter e hs1 @ filter (\<lambda>h. length h = 40) hs2)"
  have check1: "snd (check_git_exposed e d st) = st\<lparr>trace := trace st @ [Fetched (lit ''HEAD'') ?R]\<rparr>"
    by (simp add: check_git_exposed_unchanging [OF assms(1)])
  have st4: "st4 = download_each e d ?F (st\<lparr>trace := trace st @ [Fetched (lit ''HEAD'') ?R]\<rparr>)"
    by (simp add: st4_def before_objects_download_each check1)
  have st1: "st1 = download_each e d (?F @ ?O1) (st\<lparr>trace := trace st @ [Fetched (lit ''HEAD'') ?R]\<rparr>)"
    unfolding download_each_append run1(4) dump_each_download_each st4 ..
  have trace1: "trace st1 = trace st @ (Fetched (lit ''HEAD'') ?R # events_of e d (?F @ ?O1))"
    unfolding st1 by (simp add: download_each_unchanging [OF assms(1)])
  have mirrored: "mirrors e d (files st1) p" if "p \<in> set (?F @ ?O1)" for p
    unfolding st1 using that by (rule download_each_mirrors [OF assms(1)])
  \<comment> \<open>what the first run wrote after the seeds were read\<close>
  obtain evsO where evsO: "files st1 = replay evsO (files st4)"
      "object_events (set_iter e hs1 @ filter (\<lambda>h. length h = 40) hs2) evsO"
    using dump_each_events [of e d "set_iter e hs1 @ filter (\<lambda>h. length h = 40) hs2" st4]
    unfolding run1(4) by blast
  have keys: "\<forall>q c. Saved q c \<in> set evsO \<longrightarrow> (\<exists>h. q = lit ''.git/'' @ obj_path h)"
    using object_events_saved [OF evsO(2)] by blast
  have head4: "head_ref e (files st4) = head_ref e (files st1)"
    unfolding evsO(1) using keys by (rule head_ref_replay [symmetric])
  have refs1: "ref_hashes e (files st1) = Inr hs1"
    unfolding evsO(1) using ref_hashes_replay [OF keys, of e "files st4"] assms(5) head4 run1(2)
    by simp
  \<comment> \<open>the second run\<close>
  have exposed2: "fst (check_git_exposed ?e' d s)"
    using run1(1) by (simp add: check_git_exposed_unchanging [OF assms(1)])
  define s4 where "s4 = before_objects ?e' d s"
  have s4: "s4 = download_each e d ?F (s\<lparr>trace := [Fetched (lit ''HEAD'') ?R]\<rparr>)"
    by (simp add: s4_def before_objects_download_each check_git_exposed_unchanging [OF assms(1)]
        s_def)
  have files_s4: "files s4 = files st1"
    unfolding s4 using mirrored
    by (subst download_each_idle [OF assms(1)]) (auto simp: s_def)
  have trace_s4: "trace s4 = Fetched (lit ''HEAD'') ?R # events_of e d ?F"
    unfolding s4 by (simp add: download_each_unchanging [OF assms(1)])
  have refs2: "ref_hashes ?e' (files s4) = Inr hs1"
    by (simp add: files_s4 refs1)
  have "parse_index_file e st1 = Inr hs2"
    using parse_index_file_after_objects [OF evsO(2,1), of e] run1(3) by simp
  then obtain hs2' where index2: "parse_index_file ?e' s4 = Inr hs2'" "set hs2' = set hs2"
    using parse_index_file_set [of e st1 hs2 s4 ?e'] files_s4 by auto
  let ?O2 = "map obj_path (set_iter ?e' hs1 @ filter (\<lambda>h. length h = 40) hs2')"
  define st2 where "st2 = download_each e d ?O2 s4"
  have run2: "dump ?e' d s = (Inr True, st2)"
    unfolding dump_exposed [OF exposed2 refs2 [unfolded s4_def]]
    using index2(1) by (simp add: s4_def st2_def dump_each_download_each)
  have sets: "set ?O2 = set ?O1"
    by (simp add: set_iter_set index2(2))
  have files2: "files st2 = files st1"
    unfolding st2_def using mirrored sets
    by (subst download_each_idle [OF assms(1)]) (auto simp: files_s4)
  have "trace st2 = Fetched (lit ''HEAD'') ?R # events_of e d ?F @ events_of e d ?O2"
    unfolding st2_def by (simp add: download_each_unchanging [OF assms(1)] trace_s4)
  then have "set (trace st2) = set (Fetched (lit ''HEAD'') ?R # events_of e d (?F @ ?O1))"
    using set_events_of_cong [OF sets, of e d] by (simp only: events_of_append set_append list.set)
  moreover have "evs1 = Fetched (lit ''HEAD'') ?R # events_of e d (?F @ ?O1)"
    using trace1 assms(3) by simp
  ultimately show ?thesis
    using run2 files2 unfolding s_def by blast
qed


theorem second_run_same_witness:
  "unchanging (test_env server_master) \<and>
   dump (test_env server_master) test_dumper empty_state =
     (Inr True, \<lparr>files = master_files, trace = master_events\<rparr>) \<and>
   list_all plain_path (fetched_paths master_events) \<and>
   head_ref (test_env server_master) master_files = Inr (Some (lit ''refs/heads/master'')) \<and>
   plain_path (lit ''refs/heads/master'') \<and>
   (\<exists>st2. dump ((test_env server_master)\<lparr>set_order := rev\<rparr>) test_dumper
            \<lparr>files = master_files, trace = []\<rparr> = (Inr True, st2) \<and>
          files st2 = master_files \<and> set (trace st2) = set master_events)"
proof -
  have h: "head_ref (test_env server_master) master_files = Inr (Some (lit ''refs/heads/master''))"
    by (simp add: run_defs test_env_simps master_files_def head_master_def)
  have p: "prefix (lit ''refs/'') (lit ''refs/heads/master'')"
    by (simp add: lit_def)
  have hyp: "\<forall>rp. head_ref (test_env server_master) (files \<lparr>files = master_files, trace = master_events\<rparr>) =
      Inr (Some rp) \<longrightarrow> plain_path rp \<and> prefix (lit ''refs/'') rp"
    using h p plain_refs_heads_master by simp
  have tr: "trace \<lparr>files = master_files, trace = master_events\<rparr> = trace empty_state @ master_events"
    by (simp add: empty_state_def)
  from second_run_same [OF unchanging_test_env run_master tr plain_master_paths hyp, of rev]
    h run_master plain_master_paths plain_refs_heads_master
  show ?thesis
    by (simp add: unchanging_test_env empty_state_def list_all_iff)
qed

section \<open>The base URL\<close>

text \<open>
  Claim C10: wherever \<open>.git\<close> occurs in the URL it is dropped, with the slash after it when
  there is one; the base URL is what is left, without its trailing slashes, followed by
  \<open>/.git/\<close>. So when the argument contains \<open>.git\<close> the base URL is not the \<open>.git\<close>
  directory below the URL that was given: it is at least four characters shorter.
\<close>

theorem dot_git_removed_anywhere:
  "remove_git (a @ lit ''.git'' @ b) =
     remove_git a @ remove_git (if prefix (lit ''/'') b then tl b else b) \<and>
   base_url (init (target_url arg) out) =
     rstrip_slash (remove_git (with_scheme arg)) @ lit ''/.git/'' \<and>
   (sublist (lit ''.git'') arg \<longrightarrow>
      length (base_url (init (target_url arg) out)) + 4 \<le>
        length (rstrip_slash (with_scheme arg) @ lit ''/.git/'') \<and>
      base_url (init (target_url arg) out) \<noteq> rstrip_slash (with_scheme arg) @ lit ''/.git/'')"
proof -
  have base: "base_url (init (target_url arg) out) =
      rstrip_slash (remove_git (with_scheme arg)) @ lit ''/.git/''"
    by (simp add: init_def target_url_def)
  have "length (base_url (init (target_url arg) out)) + 4 \<le>
        length (rstrip_slash (with_scheme arg) @ lit ''/.git/'') \<and>
      base_url (init (target_url arg) out) \<noteq> rstrip_slash (with_scheme arg) @ lit ''/.git/''"
    if "sublist (lit ''.git'') arg"
  proof -
    from that have "sublist (lit ''.git'') (with_scheme arg)"
      by (rule sublist_with_scheme)
    with remove_git_shortens [of "with_scheme arg"]
    have "length (rstrip_slash (remove_git (with_scheme arg))) + 4 \<le>
        length (rstrip_slash (with_scheme arg))"
      by simp
    then show ?thesis
      unfolding base by auto
  qed
  with base remove_git_occurrence [of a b] show ?thesis
    by blast
qed

theorem dot_git_removed_anywhere_witness:
  "sublist (lit ''.git'') (lit ''https://example.github.io/repo'') \<and>
   remove_git (lit ''https://example'' @ lit ''.git'' @ lit ''hub.io/repo'') =
     lit ''https://example'' @ lit ''hub.io/repo'' \<and>
   base_url (init (target_url (lit ''https://example.github.io/repo'')) (lit ''./output'')) =
     lit ''https://examplehub.io/repo/.git/'' \<and>
   base_url (init (target_url (lit ''https://example.github.io/repo'')) (lit ''./output'')) \<noteq>
     lit ''https://example.github.io/repo/.git/''"
proof -
  let ?url = "lit ''https://example.github.io/repo''"
  have eq: "?url = lit ''https://example'' @ lit ''.git'' @ lit ''hub.io/repo''"
    by (simp add: lit_def)
  have sub: "sublist (lit ''.git'') ?url"
    unfolding eq by (rule sublist_appendI)
  have ws: "with_scheme ?url = ?url"
    by (simp add: with_scheme_def lit_def)
  have rs: "rstrip_slash ?url @ lit ''/.git/'' = lit ''https://example.github.io/repo/.git/''"
    by (simp add: rstrip_slash_def lit_def)
  have rg: "remove_git (lit ''https://example'') = lit ''https://example''"
      "remove_git (lit ''hub.io/repo'') = lit ''hub.io/repo''"
      "\<not> prefix (lit ''/'') (lit ''hub.io/repo'')"
    by (simp_all add: lit_def)
  have rr: "rstrip_slash (remove_git ?url) @ lit ''/.git/'' = lit ''https://examplehub.io/repo/.git/''"
    by (simp add: rstrip_slash_def lit_def)
  let ?base = "base_url (init (target_url ?url) (lit ''./output''))"
  note inst = dot_git_removed_anywhere [of "lit ''https://example''" "lit ''hub.io/repo''" ?url "lit ''./output''"]
  from inst have c1: "remove_git (lit ''https://example'' @ lit ''.git'' @ lit ''hub.io/repo'') =
      remove_git (lit ''https://example'') @ remove_git
        (if prefix (lit ''/'') (lit ''hub.io/repo'') then tl (lit ''hub.io/repo'')
         else lit ''hub.io/repo'')"
    by (rule conjunct1)
  from inst have c2: "?base = rstrip_slash (remove_git (with_scheme ?url)) @ lit ''/.git/''"
    by blast
  from inst sub have c3: "?base \<noteq> rstrip_slash (with_scheme ?url) @ lit ''/.git/''"
    by blast
  from c1 have "remove_git (lit ''https://example'' @ lit ''.git'' @ lit ''hub.io/repo'') =
      lit ''https://example'' @ lit ''hub.io/repo''"
    by (simp only: rg if_False)
  moreover from c2 have "?base = lit ''https://examplehub.io/repo/.git/''"
    unfolding ws rr .
  moreover from c3 have "?base \<noteq> lit ''https://example.github.io/repo/.git/''"
    unfolding ws rs .
  ultimately show ?thesis using sub by blast
qed

end
